theory Spec2Isabelle
  imports Main
begin

section \<open>Value graphs\<close>

text \<open>
  A value instance is an object of the JavaScript heap; the cache of the stringifier is a
  \<open>Map<Value, string>\<close>, keyed by object identity. An instance is therefore an address, and
  the value graph is a heap from addresses to nodes. The classes of the eight variants are
  not part of \<open>stringify.js\<close>: a leaf node carries the text its own \<open>toString()\<close> returns, a
  branched value carries the text of its \<open>prefix\<close> getter, and a binding identifier is the
  text it has under string concatenation. \<open>Unhandled\<close> is any object (or \<open>undefined\<close>) that
  fails every \<open>instanceof\<close> test of the stringifier. Definition tags are the numbers issued
  by the identifier counter, naturals.
\<close>

type_synonym addr = nat

datatype node =
    AnyValue string
  | DataValue string
  | LiteralValue string
  | ErrorValue string
  | BuiltinValue string
  | MaybeErrorValue addr
  | BranchedValue string addr "addr list"
  | FuncValue nat "(string \<times> addr) list"
  | Unhandled

type_synonym heap = "addr \<Rightarrow> node"

record BlockRecursionProps =
  tag :: nat
  maxDepth :: int

type_synonym cache = "(addr \<rightharpoonup> string) option"

datatype error = UnhandledValueType | Unexpected | TypeError

section \<open>Strings\<close>

text \<open>The decimal text of a number, as \<open>"Fn" + value.definitionTag\<close> produces it.\<close>

fun string_of_nat :: "nat \<Rightarrow> string" where
  "string_of_nat n =
     (if n < 10 then [''0123456789'' ! n]
      else string_of_nat (n div 10) @ [''0123456789'' ! (n mod 10)])"

declare string_of_nat.simps [simp del]

text \<open>\<open>Array.prototype.join\<close>.\<close>

fun join :: "string \<Rightarrow> string list \<Rightarrow> string" where
  "join sep [] = []"
| "join sep [x] = x"
| "join sep (x # y # ys) = x @ sep @ join sep (y # ys)"

section \<open>The state machine of stringifyValue\<close>

datatype state = Compute addr nat | Reduce string

record frame =
  owner :: addr
  frame_values :: "(addr \<times> nat) list"
  stringifiedValues :: "string list"
  fn :: "string list \<Rightarrow> string"

text \<open>\<open>cache?.get(value)\<close>: \<open>undefined\<close> without a cache or without an entry.\<close>

definition cache_get :: "cache \<Rightarrow> addr \<Rightarrow> string option" where
  "cache_get cache value = (case cache of None \<Rightarrow> None | Some m \<Rightarrow> m value)"

text \<open>\<open>if (cache && frame.owner) cache.set(frame.owner, s)\<close>: the owner is an object, truthy.\<close>

definition cache_set :: "cache \<Rightarrow> addr \<Rightarrow> string \<Rightarrow> cache" where
  "cache_set cache k s = (case cache of None \<Rightarrow> None | Some m \<Rightarrow> Some (m(k \<mapsto> s)))"

text \<open>The three combinators stored in the field \<open>fn\<close> of a frame (lines 135, 160, 214).\<close>

definition maybe_error_fn :: "string list \<Rightarrow> string" where
  "maybe_error_fn items = ''('' @ items ! 0 @ '' | Error)''"

definition branched_fn :: "string \<Rightarrow> string list \<Rightarrow> string" where
  "branched_fn prefix_text items =
     (let cond = items ! 0; cases = drop 1 items
      in prefix_text @ ''('' @ cond @ '', '' @ join '', '' cases @ '')'')"

text \<open>
  \<open>items.map((item, i) => value.stack.values.values[i][0] + ": " + item)\<close>: the combinator
  runs only once the frame holds one string per binding (line 237), so \<open>i\<close> is in range.
\<close>

definition func_fn :: "nat \<Rightarrow> (string \<times> addr) list \<Rightarrow> string list \<Rightarrow> string" where
  "func_fn definitionTag bindings items =
     (let stackEntries = map (\<lambda>(i, item). fst (bindings ! i) @ '': '' @ item) (enumerate 0 items)
      in ''Fn'' @ string_of_nat definitionTag @ ''['' @ join '', '' stackEntries @ '']'')"

text \<open>
  The \<open>instanceof\<close> chain of the compute branch (lines 103 to 227): the next state and the
  frame stack, or the error thrown. The head of the list is the top of the stack.
\<close>

definition blocked :: "BlockRecursionProps option \<Rightarrow> nat \<Rightarrow> bool" where
  "blocked blockRecursion definitionTag =
     (case blockRecursion of None \<Rightarrow> False | Some b \<Rightarrow> definitionTag = tag b)"

definition at_max_depth :: "BlockRecursionProps option \<Rightarrow> nat \<Rightarrow> bool" where
  "at_max_depth blockRecursion depth =
     (case blockRecursion of None \<Rightarrow> False | Some b \<Rightarrow> int depth = maxDepth b)"

definition visit ::
  "heap \<Rightarrow> BlockRecursionProps option \<Rightarrow> addr \<Rightarrow> nat \<Rightarrow> frame list \<Rightarrow> error + state \<times> frame list"
where
  "visit h blockRecursion value depth frames =
     (case h value of
        AnyValue s \<Rightarrow> Inr (Reduce s, frames)
      | DataValue s \<Rightarrow> Inr (Reduce s, frames)
      | LiteralValue s \<Rightarrow> Inr (Reduce s, frames)
      | ErrorValue s \<Rightarrow> Inr (Reduce s, frames)
      | BuiltinValue s \<Rightarrow> Inr (Reduce s, frames)
      | MaybeErrorValue inner \<Rightarrow>
          Inr (Compute inner depth,
               \<lparr>owner = value, frame_values = [(inner, depth)], stringifiedValues = [],
                fn = maybe_error_fn\<rparr> # frames)
      | BranchedValue prefix_text condition cases \<Rightarrow>
          Inr (Compute condition depth,
               \<lparr>owner = value,
                frame_values = [(condition, depth)] @ map (\<lambda>c. (c, depth)) cases,
                stringifiedValues = [],
                fn = branched_fn prefix_text\<rparr> # frames)
      | FuncValue definitionTag bindings \<Rightarrow>
          if blocked blockRecursion definitionTag \<and> at_max_depth blockRecursion depth
          then Inr (Reduce (''Fn'' @ string_of_nat definitionTag), frames)
          else if length bindings = 0
          then Inr (Reduce (''Fn'' @ string_of_nat definitionTag @ ''[]''), frames)
          else
            (let newDepth = (if blocked blockRecursion definitionTag then depth + 1 else depth)
             in Inr (Compute (snd (bindings ! 0)) newDepth,
                     \<lparr>owner = value,
                      frame_values = [(snd (bindings ! 0), newDepth)]
                               @ map (\<lambda>(id, v). (v, newDepth)) (drop 1 bindings),
                      stringifiedValues = [],
                      fn = func_fn definitionTag bindings\<rparr> # frames))
      | Unhandled \<Rightarrow> Inl UnhandledValueType)"

text \<open>
  One iteration of \<open>while (true)\<close>. In the reduce branch, \<open>frame.values[n]\<close> past the end is
  \<open>undefined\<close>, and destructuring it in the next iteration throws a \<open>TypeError\<close>.
\<close>

datatype step_result =
    Continue state "frame list" cache
  | Break state cache
  | Throw error cache

definition step ::
  "heap \<Rightarrow> BlockRecursionProps option \<Rightarrow> state \<Rightarrow> frame list \<Rightarrow> cache \<Rightarrow> step_result"
where
  "step h blockRecursion st frames cache =
     (case st of
        Compute value depth \<Rightarrow>
          (case cache_get cache value of
             Some cached \<Rightarrow>
               if cached \<noteq> [] then Continue (Reduce cached) frames cache
               else (case visit h blockRecursion value depth frames of
                       Inl e \<Rightarrow> Throw e cache
                     | Inr (st', frames') \<Rightarrow> Continue st' frames' cache)
           | None \<Rightarrow>
               (case visit h blockRecursion value depth frames of
                  Inl e \<Rightarrow> Throw e cache
                | Inr (st', frames') \<Rightarrow> Continue st' frames' cache))
      | Reduce item \<Rightarrow>
          (case frames of
             [] \<Rightarrow> Break st cache
           | frame # rest \<Rightarrow>
               (let strs = stringifiedValues frame @ [item]
                in if length strs = length (frame_values frame)
                   then (let s = fn frame strs
                         in Continue (Reduce s) rest (cache_set cache (owner frame) s))
                   else if length strs < length (frame_values frame)
                   then (let nextValue = frame_values frame ! length strs
                         in Continue (Compute (fst nextValue) (snd nextValue))
                              (frame\<lparr>stringifiedValues := strs\<rparr> # rest) cache)
                   else Throw TypeError cache)))"

text \<open>The loop may run forever on a cyclic graph: not returning is the value \<open>None\<close>.\<close>

partial_function (option) loop ::
  "heap \<Rightarrow> BlockRecursionProps option \<Rightarrow> state \<Rightarrow> frame list \<Rightarrow> cache
     \<Rightarrow> ((error + state) \<times> cache) option"
where
  "loop h blockRecursion st frames cache =
     (case step h blockRecursion st frames cache of
        Continue st' frames' cache' \<Rightarrow> loop h blockRecursion st' frames' cache'
      | Break st' cache' \<Rightarrow> Some (Inr st', cache')
      | Throw e cache' \<Rightarrow> Some (Inl e, cache'))"

declare loop.simps [code]

text \<open>
  The result is the outcome (the string returned or the error thrown) and the cache as the
  call leaves it.
\<close>

definition stringifyValue ::
  "heap \<Rightarrow> addr \<Rightarrow> BlockRecursionProps option \<Rightarrow> cache \<Rightarrow> ((error + string) \<times> cache) option"
where
  "stringifyValue h value blockRecursion cache =
     (case loop h blockRecursion (Compute value 0) [] cache of
        None \<Rightarrow> None
      | Some (Inl e, cache') \<Rightarrow> Some (Inl e, cache')
      | Some (Inr (Compute v d), cache') \<Rightarrow> Some (Inl Unexpected, cache')
      | Some (Inr (Reduce item), cache') \<Rightarrow> Some (Inr item, cache'))"

section \<open>Finite graphs and the recursive reading of the traversal\<close>

text \<open>The instances a value refers to: the ones the traversal may visit from it.\<close>

definition children :: "heap \<Rightarrow> addr \<Rightarrow> addr list" where
  "children h a =
     (case h a of
        MaybeErrorValue inner \<Rightarrow> [inner]
      | BranchedValue prefix_text condition cases \<Rightarrow> condition # cases
      | FuncValue definitionTag bindings \<Rightarrow> map snd bindings
      | _ \<Rightarrow> [])"

text \<open>
  \<open>graph_within h n a\<close>: every path of references from \<open>a\<close> ends within \<open>n\<close> instances. A
  graph is finite and acyclic from \<open>a\<close> exactly when this holds for some \<open>n\<close>.
\<close>

fun graph_within :: "heap \<Rightarrow> nat \<Rightarrow> addr \<Rightarrow> bool" where
  "graph_within h 0 a = False"
| "graph_within h (Suc n) a = (\<forall>c \<in> set (children h a). graph_within h n c)"

text \<open>The instances reachable from \<open>a\<close> along at most \<open>n - 1\<close> references, in visiting order.\<close>

fun nodes :: "heap \<Rightarrow> nat \<Rightarrow> addr \<Rightarrow> addr list" where
  "nodes h 0 a = []"
| "nodes h (Suc n) a = a # concat (map (nodes h n) (children h a))"

text \<open>
  The traversal read as a recursive procedure, each call standing for the run of the machine
  from \<open>Compute a d\<close> to the matching \<open>Reduce\<close>: one step of the machine on an empty frame
  stack decides between a result and a frame, and the frame's items are evaluated in order,
  the cache threaded through. The recursion is on the number of levels left; at level 0 the
  value is arbitrary, since it is only ever used on a graph within \<open>n\<close> levels.
\<close>

primrec eval_items ::
  "(addr \<Rightarrow> nat \<Rightarrow> cache \<Rightarrow> (error + string) \<times> cache) \<Rightarrow> (addr \<times> nat) list \<Rightarrow> cache
     \<Rightarrow> (error + string list) \<times> cache"
where
  "eval_items ev [] c = (Inr [], c)"
| "eval_items ev (x # xs) c =
     (case ev (fst x) (snd x) c of
        (Inl e, c') \<Rightarrow> (Inl e, c')
      | (Inr s, c') \<Rightarrow>
          (case eval_items ev xs c' of
             (Inl e, c'') \<Rightarrow> (Inl e, c'')
           | (Inr ss, c'') \<Rightarrow> (Inr (s # ss), c'')))"

primrec eval ::
  "nat \<Rightarrow> heap \<Rightarrow> BlockRecursionProps option \<Rightarrow> addr \<Rightarrow> nat \<Rightarrow> cache \<Rightarrow> (error + string) \<times> cache"
where
  "eval 0 h br a d c = (Inl Unexpected, c)"
| "eval (Suc n) h br a d c =
     (case step h br (Compute a d) [] c of
        Throw e c' \<Rightarrow> (Inl e, c')
      | Break st c' \<Rightarrow> (Inl Unexpected, c')
      | Continue (Reduce s) fs c' \<Rightarrow> (Inr s, c')
      | Continue (Compute v d') fs c' \<Rightarrow>
          (case eval_items (eval n h br) (frame_values (hd fs)) c' of
             (Inl e, c'') \<Rightarrow> (Inl e, c'')
           | (Inr ss, c'') \<Rightarrow>
               (Inr (fn (hd fs) ss), cache_set c'' (owner (hd fs)) (fn (hd fs) ss))))"

text \<open>
  The rendering as the specification words it (section 4.4, steps 2 to 6, and its property
  of termination on self-reference): a leaf is its own text, a composite value is the text of its children
  put together, and a closure of the blocked tag \<open>t\<close> is the placeholder exactly when it
  stands at depth \<open>k\<close>, the depth growing by one below each closure of that tag and nowhere
  else. It is written independently of the machine, to be compared with it.
\<close>

primrec spec_rendering :: "nat \<Rightarrow> heap \<Rightarrow> nat \<Rightarrow> nat \<Rightarrow> addr \<Rightarrow> nat \<Rightarrow> string" where
  "spec_rendering 0 h t k a d = []"
| "spec_rendering (Suc n) h t k a d =
     (case h a of
        AnyValue s \<Rightarrow> s
      | DataValue s \<Rightarrow> s
      | LiteralValue s \<Rightarrow> s
      | ErrorValue s \<Rightarrow> s
      | BuiltinValue s \<Rightarrow> s
      | MaybeErrorValue inner \<Rightarrow> ''('' @ spec_rendering n h t k inner d @ '' | Error)''
      | BranchedValue prefix_text condition cases \<Rightarrow>
          prefix_text @ ''('' @ spec_rendering n h t k condition d @ '', ''
            @ join '', '' (map (\<lambda>v. spec_rendering n h t k v d) cases) @ '')''
      | FuncValue definitionTag bindings \<Rightarrow>
          if definitionTag = t \<and> d = k then ''Fn'' @ string_of_nat definitionTag
          else ''Fn'' @ string_of_nat definitionTag @ ''[''
                 @ join '', ''
                     (map (\<lambda>(id, v). id @ '': ''
                             @ spec_rendering n h t k v (if definitionTag = t then d + 1 else d))
                        bindings)
                 @ '']''
      | Unhandled \<Rightarrow> [])"

section \<open>The configurations of a run\<close>

text \<open>
  \<open>traversal h br cfg cfg'\<close>: the loop started in configuration \<open>cfg\<close> (state, frame stack,
  cache) is in configuration \<open>cfg'\<close> at the start of some iteration.
\<close>

inductive traversal ::
  "heap \<Rightarrow> BlockRecursionProps option \<Rightarrow> state \<times> frame list \<times> cache
     \<Rightarrow> state \<times> frame list \<times> cache \<Rightarrow> bool"
  for h br cfg
where
  start: "traversal h br cfg cfg"
| iterate: "traversal h br cfg (st, fs, c) \<Longrightarrow> step h br st fs c = Continue st' fs' c'
     \<Longrightarrow> traversal h br cfg (st', fs', c')"

text \<open>
  What the compute branch stores in the frame of a composite value: the depth recorded for
  its children, and its combinator.
\<close>

definition child_depth :: "heap \<Rightarrow> BlockRecursionProps option \<Rightarrow> addr \<Rightarrow> nat \<Rightarrow> nat" where
  "child_depth h br a d =
     (case h a of
        FuncValue definitionTag bindings \<Rightarrow> if blocked br definitionTag then d + 1 else d
      | _ \<Rightarrow> d)"

definition combinator :: "heap \<Rightarrow> addr \<Rightarrow> string list \<Rightarrow> string" where
  "combinator h a =
     (case h a of
        BranchedValue prefix_text condition cases \<Rightarrow> branched_fn prefix_text
      | FuncValue definitionTag bindings \<Rightarrow> func_fn definitionTag bindings
      | _ \<Rightarrow> maybe_error_fn)"

definition frame_for ::
  "heap \<Rightarrow> BlockRecursionProps option \<Rightarrow> addr \<Rightarrow> nat \<Rightarrow> frame \<Rightarrow> bool"
where
  "frame_for h br a d f \<longleftrightarrow>
     owner f = a \<and> stringifiedValues f = [] \<and> children h a \<noteq> [] \<and>
     frame_values f = map (\<lambda>v. (v, child_depth h br a d)) (children h a) \<and>
     fn f = combinator h a"

text \<open>
  What the compute branch does with a value on its own, without a frame: the string or the
  error, or \<open>None\<close> when it pushes a frame.
\<close>

definition decide ::
  "heap \<Rightarrow> BlockRecursionProps option \<Rightarrow> cache \<Rightarrow> addr \<Rightarrow> nat \<Rightarrow> (error + string) option"
where
  "decide h br c a d =
     (case step h br (Compute a d) [] c of
        Throw e c' \<Rightarrow> Some (Inl e)
      | Break st c' \<Rightarrow> Some (Inl Unexpected)
      | Continue (Reduce s) fs c' \<Rightarrow> Some (Inr s)
      | Continue (Compute v d') fs c' \<Rightarrow> None)"



text \<open>\<open>depths_le k st fs\<close>: no depth in the state or recorded in a frame exceeds \<open>k\<close>.\<close>

definition depths_le :: "nat \<Rightarrow> state \<Rightarrow> frame list \<Rightarrow> bool" where
  "depths_le k st fs \<longleftrightarrow>
     (case st of Compute v d \<Rightarrow> d \<le> k | Reduce s \<Rightarrow> True) \<and>
     (\<forall>f \<in> set fs. \<forall>item \<in> set (frame_values f). snd item \<le> k)"

text \<open>
  The composite values are the ones the compute branch expands into a frame. An entry is
  \<open>written\<close> for a composite value when it holds the output of its combinator on one string
  per child; \<open>cache_grows h c c'\<close>: the cache \<open>c'\<close> differs from \<open>c\<close> in such entries only; a
  frame is \<open>owned\<close> when it is the frame of a composite value, still waiting for a string.
\<close>

definition composite :: "heap \<Rightarrow> addr \<Rightarrow> bool" where
  "composite h b =
     (case h b of
        MaybeErrorValue inner \<Rightarrow> True
      | BranchedValue prefix_text condition cases \<Rightarrow> True
      | FuncValue definitionTag bindings \<Rightarrow> bindings \<noteq> []
      | _ \<Rightarrow> False)"

definition written :: "heap \<Rightarrow> addr \<Rightarrow> string option \<Rightarrow> bool" where
  "written h b v \<longleftrightarrow>
     composite h b \<and>
     (\<exists>items. length items = length (children h b) \<and> v = Some (combinator h b items))"

definition cache_grows :: "heap \<Rightarrow> cache \<Rightarrow> cache \<Rightarrow> bool" where
  "cache_grows h c c' \<longleftrightarrow>
     (case c of
        None \<Rightarrow> c' = None
      | Some m \<Rightarrow> (\<exists>m'. c' = Some m' \<and> (\<forall>b. m' b \<noteq> m b \<longrightarrow> written h b (m' b))))"

definition owned :: "heap \<Rightarrow> frame \<Rightarrow> bool" where
  "owned h f \<longleftrightarrow>
     composite h (owner f) \<and> fn f = combinator h (owner f) \<and>
     length (frame_values f) = length (children h (owner f)) \<and>
     length (stringifiedValues f) < length (frame_values f)"

section \<open>stringifyStackValues and stringifyCall\<close>

text \<open>
  \<open>values.values.map(([id, v]) => ...)\<close>: the bindings are stringified in order, each call
  seeing the cache as the calls before it left it; an error thrown by one of them ends the map.
\<close>

fun stack_items ::
  "heap \<Rightarrow> (string \<times> addr) list \<Rightarrow> BlockRecursionProps option \<Rightarrow> cache
     \<Rightarrow> ((error + string list) \<times> cache) option"
where
  "stack_items h [] blockRecursion cache = Some (Inr [], cache)"
| "stack_items h (binding # rest) blockRecursion cache =
     (case stringifyValue h (snd binding) blockRecursion cache of
        None \<Rightarrow> None
      | Some (Inl e, cache') \<Rightarrow> Some (Inl e, cache')
      | Some (Inr item, cache') \<Rightarrow>
          (case stack_items h rest blockRecursion cache' of
             None \<Rightarrow> None
           | Some (Inl e, cache'') \<Rightarrow> Some (Inl e, cache'')
           | Some (Inr items, cache'') \<Rightarrow>
               Some (Inr ((fst binding @ '': '' @ item) # items), cache'')))"

definition stringifyStackValues ::
  "heap \<Rightarrow> (string \<times> addr) list \<Rightarrow> BlockRecursionProps option \<Rightarrow> cache
     \<Rightarrow> ((error + string) \<times> cache) option"
where
  "stringifyStackValues h bindings blockRecursion cache =
     (case stack_items h bindings blockRecursion cache of
        None \<Rightarrow> None
      | Some (Inl e, cache') \<Rightarrow> Some (Inl e, cache')
      | Some (Inr items, cache') \<Rightarrow> Some (Inr (''['' @ join '', '' items @ '']''), cache'))"

text \<open>
  The \<open>toString\<close> methods of the value classes are not part of \<open>stringify.js\<close>:
  \<open>toString\<close> is a parameter, the text each instance gives for itself.
\<close>

definition stringifyCall :: "(addr \<Rightarrow> string) \<Rightarrow> addr \<Rightarrow> addr list \<Rightarrow> string" where
  "stringifyCall toString fn_value args =
     toString fn_value @ ''('' @ join '', '' (map toString args) @ '')''"

section \<open>Example graphs\<close>

text \<open>A closure without bindings.\<close>

definition heap_empty_fn :: heap where
  "heap_empty_fn = (\<lambda>a. if a = 0 then FuncValue 7 [] else Unhandled)"

definition cutoff_7_0 :: "BlockRecursionProps option" where
  "cutoff_7_0 = Some \<lparr>tag = 7, maxDepth = 0\<rparr>"

text \<open>A literal, and a cache that holds the empty string for it.\<close>

definition heap_literal :: heap where
  "heap_literal = (\<lambda>a. if a = 0 then LiteralValue ''3'' else Unhandled)"

definition cache_empty_string :: cache where
  "cache_empty_string = Some [0 \<mapsto> []]"

definition cache_stale :: cache where
  "cache_stale = Some [0 \<mapsto> ''old'']"

text \<open>
  \<open>Fn7[x: 1, y: (If(Any, 1, 1) | Error), z: (If(Any, 1, 1) | Error)]\<close>: a closure over
  a literal and a branch that may fail, the latter bound twice.
\<close>

definition heap_shared :: heap where
  "heap_shared =
     (\<lambda>a. if a = 0 then FuncValue 7 [(''x'', 1), (''y'', 2), (''z'', 2)]
          else if a = 1 then LiteralValue ''1''
          else if a = 2 then MaybeErrorValue 3
          else if a = 3 then BranchedValue ''If'' 4 [1, 1]
          else if a = 4 then AnyValue ''Any''
          else Unhandled)"

text \<open>The same graph on a heap that holds one more, unrelated instance.\<close>

definition heap_shared_other :: heap where
  "heap_shared_other = heap_shared(9 := AnyValue ''other'')"

text \<open>A fresh cache, as \<open>new Map()\<close> gives it.\<close>

definition cache_fresh :: cache where
  "cache_fresh = Some Map.empty"

text \<open>The cache after stringifying this graph from a fresh cache.\<close>

definition cache_shared_after :: cache where
  "cache_shared_after =
     Some [3 \<mapsto> ''If(Any, 1, 1)'', 2 \<mapsto> ''(If(Any, 1, 1) | Error)'',
           0 \<mapsto> ''Fn7[x: 1, y: (If(Any, 1, 1) | Error), z: (If(Any, 1, 1) | Error)]'']"

text \<open>The cache after stringifying the second binding of its root from a fresh cache.\<close>

definition cache_shared_mid :: cache where
  "cache_shared_mid = Some [3 \<mapsto> ''If(Any, 1, 1)'', 2 \<mapsto> ''(If(Any, 1, 1) | Error)'']"

definition cutoff_7_5 :: "BlockRecursionProps option" where
  "cutoff_7_5 = Some \<lparr>tag = 7, maxDepth = 5\<rparr>"

text \<open>The frame pushed for the closure at the root of this graph under that cutoff.\<close>

definition frame_shared :: frame where
  "frame_shared =
     \<lparr>owner = 0, frame_values = [(1, 1), (2, 1), (2, 1)], stringifiedValues = [],
      fn = func_fn 7 [(''x'', 1), (''y'', 2), (''z'', 2)]\<rparr>"

text \<open>Three nested closures of the same definition, the innermost without bindings.\<close>

definition heap_recursive :: heap where
  "heap_recursive =
     (\<lambda>a. if a = 0 then FuncValue 9 [(''self'', 1)]
          else if a = 1 then FuncValue 9 [(''self'', 2)]
          else if a = 2 then FuncValue 9 []
          else Unhandled)"

text \<open>The frame pushed for the outermost of them.\<close>

definition frame_recursive :: frame where
  "frame_recursive =
     \<lparr>owner = 0, frame_values = [(1, 1)], stringifiedValues = [],
      fn = func_fn 9 [(''self'', 1)]\<rparr>"

definition cutoff_9_1 :: "BlockRecursionProps option" where
  "cutoff_9_1 = Some \<lparr>tag = 9, maxDepth = 1\<rparr>"

text \<open>
  A closure of tag 9 over two closures of the same tag, the second of which binds the first:
  the instance 1 is met at depth 1 and, below the instance 2, at depth 2.
\<close>

definition heap_twice :: heap where
  "heap_twice =
     (\<lambda>a. if a = 0 then FuncValue 9 [(''x'', 1), (''y'', 2)]
          else if a = 1 then FuncValue 9 [(''a'', 3)]
          else if a = 2 then FuncValue 9 [(''b'', 1)]
          else if a = 3 then LiteralValue ''1''
          else Unhandled)"

definition cutoff_9_2 :: "BlockRecursionProps option" where
  "cutoff_9_2 = Some \<lparr>tag = 9, maxDepth = 2\<rparr>"

text \<open>A closure of tag 7 below a value that may fail and a branch, inside a closure of tag 7.\<close>

definition heap_nested :: heap where
  "heap_nested =
     (\<lambda>a. if a = 0 then FuncValue 7 [(''f'', 1)]
          else if a = 1 then MaybeErrorValue 2
          else if a = 2 then BranchedValue ''Ite'' 3 [4, 5]
          else if a = 3 then AnyValue ''Any''
          else if a = 4 then FuncValue 7 [(''g'', 5)]
          else if a = 5 then LiteralValue ''1''
          else Unhandled)"

definition cutoff_7_1 :: "BlockRecursionProps option" where
  "cutoff_7_1 = Some \<lparr>tag = 7, maxDepth = 1\<rparr>"

text \<open>
  A closure that is its own binding: not a value graph the analysis builds, but the extreme
  case of self-reference.
\<close>

definition heap_cyclic :: heap where
  "heap_cyclic = (\<lambda>a. if a = 0 then FuncValue 9 [(''self'', 0)] else Unhandled)"

text \<open>A closure whose only binding is an object of no known variant.\<close>

definition heap_unhandled :: heap where
  "heap_unhandled = (\<lambda>a. if a = 0 then FuncValue 7 [(''x'', 1)] else Unhandled)"

text \<open>The texts three operands give for themselves.\<close>

definition own_text :: "addr \<Rightarrow> string" where
  "own_text a = (if a = 0 then ''add'' else if a = 1 then ''1'' else ''Any'')"

section \<open>One iteration\<close>

lemma visit_cases:
  "visit h br a d [] = Inl UnhandledValueType \<and> h a = Unhandled
   \<or> (\<exists>s. visit h br a d [] = Inr (Reduce s, []))
   \<or> (\<exists>f. visit h br a d [] = Inr (Compute (fst (hd (frame_values f))) (snd (hd (frame_values f))), [f])
          \<and> frame_for h br a d f)"
proof (cases "h a")
  case (FuncValue t bs)
  show ?thesis
  proof (cases bs)
    case Nil
    with FuncValue show ?thesis by (simp add: visit_def)
  next
    case (Cons b bs')
    have "map (\<lambda>(id, v). (v, k)) bs' = map ((\<lambda>v. (v, k)) \<circ> snd) bs'" for k :: nat
      by (rule map_cong) auto
    with FuncValue Cons show ?thesis
      by (simp add: visit_def frame_for_def children_def child_depth_def combinator_def Let_def)
  qed
next
  case (BranchedValue p c cs)
  then show ?thesis
    by (simp add: visit_def frame_for_def children_def child_depth_def combinator_def)
qed (simp_all add: visit_def frame_for_def children_def child_depth_def combinator_def)

lemma visit_frames:
  "visit h br a d fs =
     (case visit h br a d [] of Inl e \<Rightarrow> Inl e | Inr (st, fs') \<Rightarrow> Inr (st, fs' @ fs))"
  by (simp add: visit_def Let_def split: node.splits)

lemma step_frames:
  "step h br (Compute a d) fs c =
     (case step h br (Compute a d) [] c of
        Continue st fs' c' \<Rightarrow> Continue st (fs' @ fs) c'
      | Break st c' \<Rightarrow> Break st c'
      | Throw e c' \<Rightarrow> Throw e c')"
  by (cases "visit h br a d []")
     (auto simp: step_def visit_frames [of h br a d fs] split: option.splits)

lemma step_compute_cases:
  "(\<exists>e. step h br (Compute a d) [] c = Throw e c)
   \<or> (\<exists>s. step h br (Compute a d) [] c = Continue (Reduce s) [] c)
   \<or> (\<exists>f. step h br (Compute a d) [] c =
            Continue (Compute (fst (hd (frame_values f))) (snd (hd (frame_values f)))) [f] c
          \<and> frame_for h br a d f)"
  using visit_cases [of h br a d]
  by (auto simp: step_def split: option.splits)

section \<open>The machine computes the recursive reading\<close>

lemma loop_reduce_nil: "loop h br (Reduce s) [] c = Some (Inr (Reduce s), c)"
  by (subst loop.simps) (simp add: step_def)

lemma loop_reduce_last:
  "length (stringifiedValues f) + 1 = length (frame_values f) \<Longrightarrow>
   loop h br (Reduce s) (f # fs) c =
     loop h br (Reduce (fn f (stringifiedValues f @ [s]))) fs
       (cache_set c (owner f) (fn f (stringifiedValues f @ [s])))"
  by (subst loop.simps) (simp add: step_def Let_def)

lemma loop_reduce_next:
  "length (stringifiedValues f) + 1 < length (frame_values f) \<Longrightarrow>
   loop h br (Reduce s) (f # fs) c =
     loop h br (Compute (fst (frame_values f ! (length (stringifiedValues f) + 1)))
                        (snd (frame_values f ! (length (stringifiedValues f) + 1))))
       (f\<lparr>stringifiedValues := stringifiedValues f @ [s]\<rparr> # fs) c"
  by (subst loop.simps) (simp add: step_def Let_def)

lemma loop_items:
  assumes ev: "\<And>a d fs c. graph_within h n a \<Longrightarrow>
      loop h br (Compute a d) fs c =
        (case eval n h br a d c of
           (Inl e, c') \<Rightarrow> Some (Inl e, c')
         | (Inr s, c') \<Rightarrow> loop h br (Reduce s) fs c')"
  shows "\<forall>x \<in> set (x # items). graph_within h n (fst x) \<Longrightarrow>
     frame_values f = pre @ x # items \<Longrightarrow> length pre = length (stringifiedValues f) \<Longrightarrow>
     loop h br (Compute (fst x) (snd x)) (f # fs) c =
       (case eval_items (eval n h br) (x # items) c of
          (Inl e, c') \<Rightarrow> Some (Inl e, c')
        | (Inr ss, c') \<Rightarrow>
            loop h br (Reduce (fn f (stringifiedValues f @ ss))) fs
              (cache_set c' (owner f) (fn f (stringifiedValues f @ ss))))"
proof (induction items arbitrary: x f pre c)
  case Nil
  then have gx: "graph_within h n (fst x)" by simp
  from Nil have len: "length (stringifiedValues f) + 1 = length (frame_values f)" by simp
  show ?case
    by (simp add: ev [OF gx] loop_reduce_last [OF len] split: prod.splits sum.splits)
next
  case (Cons y items)
  then have gx: "graph_within h n (fst x)" by simp
  from Cons.prems have len: "length (stringifiedValues f) + 1 < length (frame_values f)" by simp
  from Cons.prems have nxt: "frame_values f ! (length (stringifiedValues f) + 1) = y"
    by (simp add: nth_append)
  let ?f = "\<lambda>s. f\<lparr>stringifiedValues := stringifiedValues f @ [s]\<rparr>"
  have step: "loop h br (Compute (fst y) (snd y)) (?f s # fs) c' =
       (case eval_items (eval n h br) (y # items) c' of
          (Inl e, c'') \<Rightarrow> Some (Inl e, c'')
        | (Inr ss, c'') \<Rightarrow>
            loop h br (Reduce (fn f (stringifiedValues f @ s # ss))) fs
              (cache_set c'' (owner f) (fn f (stringifiedValues f @ s # ss))))" for s c'
    using Cons.IH [of y "?f s" "pre @ [x]" c'] Cons.prems
    by (cases "eval_items (eval n h br) (y # items) c'")
       (simp del: eval_items.simps split: sum.splits)
  show ?case
  proof (cases "eval n h br (fst x) (snd x) c")
    case (Pair r c')
    show ?thesis
    proof (cases r)
      case (Inl e)
      with Pair show ?thesis by (simp add: ev [OF gx])
    next
      case (Inr s)
      have unf: "eval_items (eval n h br) (x # y # items) c =
          (case eval_items (eval n h br) (y # items) c' of
             (Inl e, c'') \<Rightarrow> (Inl e, c'')
           | (Inr ss, c'') \<Rightarrow> (Inr (s # ss), c''))"
        by (subst eval_items.simps(2)) (simp add: Pair Inr del: eval_items.simps)
      have "loop h br (Compute (fst x) (snd x)) (f # fs) c = loop h br (Reduce s) (f # fs) c'"
        by (simp add: ev [OF gx] Pair Inr)
      also have "\<dots> = loop h br (Compute (fst y) (snd y)) (?f s # fs) c'"
        using loop_reduce_next [OF len] nxt by simp
      also note step
      finally show ?thesis
        unfolding unf
        by (cases "eval_items (eval n h br) (y # items) c'")
           (simp del: eval_items.simps split: sum.splits)
    qed
  qed
qed

lemma loop_eval:
  "graph_within h n a \<Longrightarrow>
   loop h br (Compute a d) fs c =
     (case eval n h br a d c of
        (Inl e, c') \<Rightarrow> Some (Inl e, c')
      | (Inr s, c') \<Rightarrow> loop h br (Reduce s) fs c')"
proof (induction n arbitrary: a d fs c)
  case 0
  then show ?case by simp
next
  case (Suc n)
  consider (throw) e where "step h br (Compute a d) [] c = Throw e c"
    | (leaf) s where "step h br (Compute a d) [] c = Continue (Reduce s) [] c"
    | (push) f where "step h br (Compute a d) [] c =
            Continue (Compute (fst (hd (frame_values f))) (snd (hd (frame_values f)))) [f] c"
          "frame_for h br a d f"
    using step_compute_cases [of h br a d c] by blast
  then show ?case
  proof cases
    case throw
    then show ?thesis
      by (subst loop.simps, subst step_frames) simp
  next
    case leaf
    then show ?thesis
      by (subst loop.simps, subst step_frames) simp
  next
    case push
    from push(2) obtain x items where vs: "frame_values f = x # items"
      by (cases "frame_values f") (auto simp: frame_for_def)
    from push(2) have ch: "fst ` set (frame_values f) = set (children h a)" and
      strs: "stringifiedValues f = []" by (auto simp: frame_for_def image_image)
    from Suc.prems ch have g: "\<forall>x \<in> set (x # items). graph_within h n (fst x)"
      unfolding vs by (metis graph_within.simps(2) image_eqI)
    have "loop h br (Compute a d) fs c = loop h br (Compute (fst x) (snd x)) (f # fs) c"
      using push(1) vs by (subst loop.simps, subst step_frames) simp
    also have "\<dots> = (case eval_items (eval n h br) (x # items) c of
          (Inl e, c') \<Rightarrow> Some (Inl e, c')
        | (Inr ss, c') \<Rightarrow>
            loop h br (Reduce (fn f (stringifiedValues f @ ss))) fs
              (cache_set c' (owner f) (fn f (stringifiedValues f @ ss))))"
      by (rule loop_items [where pre = "[]", OF Suc.IH g]) (simp_all add: vs strs)
    finally show ?thesis
      using push(1) vs strs by (simp split: prod.splits sum.splits)
  qed
qed

lemma stringifyValue_eval:
  "graph_within h n a \<Longrightarrow> stringifyValue h a br c = Some (eval n h br a 0 c)"
  by (simp add: stringifyValue_def loop_eval loop_reduce_nil split: prod.splits sum.splits)

section \<open>Single steps\<close>

lemma step_cache_hit:
  "cache_get c a = Some s \<Longrightarrow> s \<noteq> [] \<Longrightarrow>
   step h br (Compute a d) fs c = Continue (Reduce s) fs c"
  by (simp add: step_def)

lemma step_cache_miss:
  "cache_get c a = None \<or> cache_get c a = Some [] \<Longrightarrow>
   step h br (Compute a d) fs c =
     (case visit h br a d fs of
        Inl e \<Rightarrow> Throw e c
      | Inr (st', frames') \<Rightarrow> Continue st' frames' c)"
  by (auto simp: step_def)

lemma loop_continue:
  "step h br st fs c = Continue st' fs' c' \<Longrightarrow> loop h br st fs c = loop h br st' fs' c'"
  by (subst loop.simps) simp

section \<open>Properties of the recursive reading\<close>

lemma eval_Suc:
  "eval (Suc n) h br a d c =
     (case decide h br c a d of
        Some r \<Rightarrow> (r, c)
      | None \<Rightarrow>
          (case eval_items (eval n h br) (map (\<lambda>v. (v, child_depth h br a d)) (children h a)) c of
             (Inl e, c') \<Rightarrow> (Inl e, c')
           | (Inr ss, c') \<Rightarrow> (Inr (combinator h a ss), cache_set c' a (combinator h a ss))))"
  using step_compute_cases [of h br a d c]
  by (auto simp: decide_def frame_for_def split: prod.splits sum.splits)

lemma decide_hit: "cache_get c a = Some s \<Longrightarrow> s \<noteq> [] \<Longrightarrow> decide h br c a d = Some (Inr s)"
  by (simp add: decide_def step_cache_hit)

lemma decide_miss:
  "cache_get c a = None \<or> cache_get c a = Some [] \<Longrightarrow>
   decide h br c a d =
     (case h a of
        AnyValue s \<Rightarrow> Some (Inr s)
      | DataValue s \<Rightarrow> Some (Inr s)
      | LiteralValue s \<Rightarrow> Some (Inr s)
      | ErrorValue s \<Rightarrow> Some (Inr s)
      | BuiltinValue s \<Rightarrow> Some (Inr s)
      | MaybeErrorValue inner \<Rightarrow> None
      | BranchedValue p cond cases \<Rightarrow> None
      | FuncValue t bs \<Rightarrow>
          if blocked br t \<and> at_max_depth br d then Some (Inr (''Fn'' @ string_of_nat t))
          else if bs = [] then Some (Inr (''Fn'' @ string_of_nat t @ ''[]''))
          else None
      | Unhandled \<Rightarrow> Some (Inl UnhandledValueType))"
  by (simp add: decide_def step_cache_miss visit_def Let_def split: node.splits)

lemma decide_None_children: "decide h br c a d = None \<Longrightarrow> children h a \<noteq> []"
  using step_compute_cases [of h br a d c]
  by (auto simp: decide_def frame_for_def)

lemma eval_items_cong:
  "(\<And>x c. x \<in> set xs \<Longrightarrow> ev (fst x) (snd x) c = ev' (fst x) (snd x) c) \<Longrightarrow>
   eval_items ev xs c = eval_items ev' xs c"
  by (induction xs arbitrary: c) (simp_all split: prod.splits sum.splits)


lemma eval_no_cache: "snd (eval n h br a d None) = None"
proof (induction n arbitrary: a d)
  case (Suc n)
  have "snd (eval_items (eval n h br) xs None) = None" for xs
  proof (induction xs)
    case (Cons x xs)
    then show ?case
      using Suc [of "fst x" "snd x"]
      by (cases "eval n h br (fst x) (snd x) None")
         (auto split: prod.splits sum.splits)
  qed simp
  then have items: "snd (eval_items (eval n h br) xs None) = None" for xs .
  show ?case
  proof (cases "decide h br None a d")
    case None
    obtain r c' where e:
      "eval_items (eval n h br) (map (\<lambda>v. (v, child_depth h br a d)) (children h a)) None = (r, c')"
      by (cases "eval_items (eval n h br) (map (\<lambda>v. (v, child_depth h br a d)) (children h a)) None")
    with items [of "map (\<lambda>v. (v, child_depth h br a d)) (children h a)"] have "c' = None" by simp
    with None e show ?thesis
      by (cases r) (simp_all add: eval_Suc cache_set_def del: eval.simps)
  next
    case (Some r)
    then show ?thesis by (simp add: eval_Suc del: eval.simps)
  qed
qed simp

section \<open>Caches that hold the canonical strings\<close>









section \<open>The result depends on the reachable instances only\<close>

lemma decide_heap: "h a = h' a \<Longrightarrow> decide h br c a d = decide h' br c a d"
proof (cases "\<exists>s. cache_get c a = Some s \<and> s \<noteq> []")
  case True
  then show ?thesis by (auto simp: decide_hit)
next
  case False
  assume "h a = h' a"
  moreover from False have "cache_get c a = None \<or> cache_get c a = Some []"
    by (cases "cache_get c a") auto
  ultimately show ?thesis by (simp add: decide_miss)
qed

lemma nodes_child: "v \<in> set (children h a) \<Longrightarrow> set (nodes h n v) \<subseteq> set (nodes h (Suc n) a)"
  by auto

lemma graph_within_heap:
  "graph_within h n a \<Longrightarrow> \<forall>b \<in> set (nodes h n a). h b = h' b \<Longrightarrow> graph_within h' n a"
proof (induction n arbitrary: a)
  case (Suc n)
  from Suc.prems(2) have ch: "children h' a = children h a" by (simp add: children_def)
  have "graph_within h' n v" if "v \<in> set (children h a)" for v
  proof (rule Suc.IH)
    from that Suc.prems(1) show "graph_within h n v" by simp
    from that Suc.prems(2) show "\<forall>b \<in> set (nodes h n v). h b = h' b" by simp
  qed
  with ch show ?case by simp
qed simp

lemma eval_heap:
  "graph_within h n a \<Longrightarrow> \<forall>b \<in> set (nodes h n a). h b = h' b \<Longrightarrow>
   eval n h br a d c = eval n h' br a d c"
proof (induction n arbitrary: a d c)
  case (Suc n)
  from Suc.prems have ha: "h a = h' a" by simp
  then have same: "children h' a = children h a" "child_depth h' br a d = child_depth h br a d"
    "combinator h' a = combinator h a"
    by (simp_all add: children_def child_depth_def combinator_def)
  have "eval_items (eval n h br) (map (\<lambda>v. (v, k)) (children h a)) c =
        eval_items (eval n h' br) (map (\<lambda>v. (v, k)) (children h a)) c" for k
    using Suc.prems by (intro eval_items_cong Suc.IH) auto
  then show ?case
    by (cases "decide h br c a d")
       (simp_all add: eval_Suc same decide_heap [where h = h and h' = h' and a = a, OF ha, symmetric] del: eval.simps
          split: prod.splits sum.splits)
qed simp

section \<open>Errors of the recursive reading\<close>

lemma decide_error:
  "decide h br c a d = Some (Inl e) \<Longrightarrow> e = UnhandledValueType \<and> h a = Unhandled"
proof (cases "\<exists>s. cache_get c a = Some s \<and> s \<noteq> []")
  case True
  assume "decide h br c a d = Some (Inl e)"
  with True show ?thesis by (auto simp: decide_hit)
next
  case False
  assume d: "decide h br c a d = Some (Inl e)"
  from False have "cache_get c a = None \<or> cache_get c a = Some []"
    by (cases "cache_get c a") auto
  with d show ?thesis by (auto simp: decide_miss split: node.splits if_splits)
qed

lemma eval_items_error:
  "fst (eval_items ev xs c) = Inl e \<Longrightarrow> \<exists>x \<in> set xs. \<exists>c'. fst (ev (fst x) (snd x) c') = Inl e"
proof (induction xs arbitrary: c)
  case (Cons x xs)
  obtain r c' where e: "ev (fst x) (snd x) c = (r, c')" by (cases "ev (fst x) (snd x) c")
  show ?case
  proof (cases r)
    case (Inl e')
    with e Cons.prems show ?thesis by (auto intro: exI [of _ c])
  next
    case (Inr s)
    with e Cons.prems have "fst (eval_items ev xs c') = Inl e"
      by (cases "eval_items ev xs c'") (auto split: sum.splits)
    from Cons.IH [OF this] show ?thesis by auto
  qed
qed simp

lemma eval_items_ok:
  "\<forall>x \<in> set xs. \<forall>c. \<exists>s. fst (ev (fst x) (snd x) c) = Inr s \<Longrightarrow>
   \<exists>ss. fst (eval_items ev xs c) = Inr ss"
proof (induction xs arbitrary: c)
  case (Cons x xs)
  from Cons.prems have "\<exists>s. fst (ev (fst x) (snd x) c) = Inr s" by simp
  then obtain s c' where e: "ev (fst x) (snd x) c = (Inr s, c')"
    by (cases "ev (fst x) (snd x) c") auto
  from Cons.prems have "\<forall>x \<in> set xs. \<forall>c. \<exists>s. fst (ev (fst x) (snd x) c) = Inr s" by simp
  from Cons.IH [OF this, of c'] obtain ss c'' where "eval_items ev xs c' = (Inr ss, c'')"
    by (cases "eval_items ev xs c'") auto
  with e show ?case by simp
qed simp

lemma eval_error:
  "graph_within h n a \<Longrightarrow> fst (eval n h br a d c) = Inl e \<Longrightarrow>
   e = UnhandledValueType \<and> (\<exists>b \<in> set (nodes h n a). h b = Unhandled)"
proof (induction n arbitrary: a d c)
  case (Suc n)
  show ?case
  proof (cases "decide h br c a d")
    case (Some r)
    with Suc.prems show ?thesis
      using decide_error [of h br c a d e] by (simp add: eval_Suc del: eval.simps)
  next
    case None
    let ?xs = "map (\<lambda>v. (v, child_depth h br a d)) (children h a)"
    from None Suc.prems(2) have "fst (eval_items (eval n h br) ?xs c) = Inl e"
      by (cases "eval_items (eval n h br) ?xs c")
         (auto simp: eval_Suc simp del: eval.simps split: sum.splits)
    from eval_items_error [OF this] obtain v c' where
      v: "v \<in> set (children h a)" "fst (eval n h br v (child_depth h br a d) c') = Inl e"
      by auto
    with Suc.prems(1) have "graph_within h n v" by simp
    from Suc.IH [OF this v(2)] v(1) show ?thesis by auto
  qed
qed simp

lemma eval_sealed:
  assumes "graph_within h n a" and "\<forall>b \<in> set (nodes h n a). h b \<noteq> Unhandled"
  shows "\<exists>s. fst (eval n h br a d c) = Inr s"
proof (cases "fst (eval n h br a d c)")
  case (Inl e)
  from eval_error [OF assms(1) this] assms(2) show ?thesis by blast
qed simp

lemma eval_items_fails:
  assumes "\<And>x. x \<in> set xs \<Longrightarrow> snd (ev (fst x) (snd x) None) = None"
      and "\<exists>x \<in> set xs. \<exists>e. fst (ev (fst x) (snd x) None) = Inl e"
  shows "\<exists>e. fst (eval_items ev xs None) = Inl e"
  using assms
proof (induction xs)
  case (Cons x xs)
  from Cons.prems(1) [of x] obtain r where e: "ev (fst x) (snd x) None = (r, None)"
    by (cases "ev (fst x) (snd x) None") auto
  show ?case
  proof (cases r)
    case (Inl e')
    with e show ?thesis by simp
  next
    case (Inr s)
    with e Cons.prems(2) have "\<exists>x \<in> set xs. \<exists>e. fst (ev (fst x) (snd x) None) = Inl e" by auto
    with Cons.IH Cons.prems(1) obtain e' where "fst (eval_items ev xs None) = Inl e'" by auto
    then obtain c' where "eval_items ev xs None = (Inl e', c')"
      by (cases "eval_items ev xs None") auto
    with e Inr show ?thesis by simp
  qed
qed simp

lemma eval_unhandled:
  "graph_within h n a \<Longrightarrow> \<exists>b \<in> set (nodes h n a). h b = Unhandled \<Longrightarrow>
   \<exists>e. fst (eval n h None a d None) = Inl e"
proof (induction n arbitrary: a d)
  case (Suc n)
  have miss: "cache_get None a = None \<or> cache_get None a = Some []" by (simp add: cache_get_def)
  show ?case
  proof (cases "h a = Unhandled")
    case True
    then show ?thesis by (simp add: eval_Suc decide_miss [OF miss] del: eval.simps)
  next
    case False
    with Suc.prems(2) obtain v b where v: "v \<in> set (children h a)" "b \<in> set (nodes h n v)"
      "h b = Unhandled" by auto
    then have ne: "children h a \<noteq> []" by auto
    then have dec: "decide h None None a d = None"
      by (auto simp: decide_miss [OF miss] children_def blocked_def split: node.splits)
    let ?xs = "map (\<lambda>v. (v, child_depth h None a d)) (children h a)"
    from Suc.prems(1) v have "\<exists>e. fst (eval n h None v (child_depth h None a d) None) = Inl e"
      by (intro Suc.IH) auto
    with v(1) have "\<exists>e. fst (eval_items (eval n h None) ?xs None) = Inl e"
      by (intro eval_items_fails) (auto simp: eval_no_cache)
    then obtain e c' where "eval_items (eval n h None) ?xs None = (Inl e, c')"
      by (cases "eval_items (eval n h None) ?xs None") auto
    with dec show ?thesis by (simp add: eval_Suc del: eval.simps)
  qed
qed simp

section \<open>Invariants of a run\<close>

lemma step_compute_push:
  assumes "step h br (Compute a d) fs c = Continue (Compute v d') fs' c'"
  shows "\<exists>f. fs' = f # fs \<and> frame_for h br a d f \<and> c' = c \<and> decide h br c a d = None
            \<and> (v, d') = hd (frame_values f)"
proof -
  from step_compute_cases [of h br a d c] assms
  obtain f where f: "step h br (Compute a d) [] c =
            Continue (Compute (fst (hd (frame_values f))) (snd (hd (frame_values f)))) [f] c"
     "frame_for h br a d f"
    by (subst (asm) (4) step_frames) auto
  with assms show ?thesis
    by (subst (asm) step_frames) (auto simp: decide_def)
qed

lemma step_compute_reduce:
  assumes "step h br (Compute a d) fs c = Continue (Reduce s) fs' c'"
  shows "fs' = fs \<and> c' = c \<and> decide h br c a d = Some (Inr s)"
proof -
  from step_compute_cases [of h br a d c] assms
  have "step h br (Compute a d) [] c = Continue (Reduce s) [] c"
    by (subst (asm) (4) step_frames) auto
  with assms show ?thesis
    by (subst (asm) step_frames) (simp add: decide_def)
qed

lemma step_reduce_cases:
  assumes "step h br (Reduce s) fs c = Continue st' fs' c'"
  shows "\<exists>f rest. fs = f # rest \<and>
     (length (stringifiedValues f) + 1 = length (frame_values f)
        \<and> st' = Reduce (fn f (stringifiedValues f @ [s])) \<and> fs' = rest
        \<and> c' = cache_set c (owner f) (fn f (stringifiedValues f @ [s]))
      \<or> length (stringifiedValues f) + 1 < length (frame_values f)
        \<and> st' = Compute (fst (frame_values f ! (length (stringifiedValues f) + 1)))
                         (snd (frame_values f ! (length (stringifiedValues f) + 1)))
        \<and> fs' = f\<lparr>stringifiedValues := stringifiedValues f @ [s]\<rparr> # rest \<and> c' = c)"
  using assms by (cases fs) (auto simp: step_def Let_def split: if_splits)

lemma child_depth_bound:
  assumes "decide h br c a d = None" and "br = Some \<lparr>tag = t, maxDepth = int k\<rparr>" and "d \<le> k"
  shows "child_depth h br a d \<le> k"
proof (cases "\<exists>s. cache_get c a = Some s \<and> s \<noteq> []")
  case True
  with assms(1) show ?thesis by (auto simp: decide_hit)
next
  case False
  then have "cache_get c a = None \<or> cache_get c a = Some []" by (cases "cache_get c a") auto
  from assms(1) [unfolded decide_miss [OF this]] assms(2,3) show ?thesis
    by (auto simp: child_depth_def at_max_depth_def blocked_def split: node.splits if_splits)
qed

lemma step_depths:
  assumes "step h br st fs c = Continue st' fs' c'" and "br = Some \<lparr>tag = t, maxDepth = int k\<rparr>"
      and "depths_le k st fs"
  shows "depths_le k st' fs'"
proof (cases st)
  case (Compute a d)
  show ?thesis
  proof (cases st')
    case (Compute v d')
    from step_compute_push [OF assms(1) [unfolded \<open>st = Compute a d\<close> Compute]]
    obtain f where f: "fs' = f # fs" "frame_for h br a d f" "decide h br c a d = None"
      "(v, d') = hd (frame_values f)" by blast
    from assms(3) \<open>st = Compute a d\<close> have "d \<le> k" by (simp add: depths_le_def)
    from child_depth_bound [OF f(3) assms(2) this] f(1,2,4) assms(3) Compute show ?thesis
      by (auto simp: depths_le_def frame_for_def hd_map)
  next
    case (Reduce s)
    from step_compute_reduce [OF assms(1) [unfolded \<open>st = Compute a d\<close> Reduce]] assms(3) Reduce
    show ?thesis by (simp add: depths_le_def)
  qed
next
  case (Reduce s)
  from step_reduce_cases [OF assms(1) [unfolded Reduce]] obtain f rest where
    fs: "fs = f # rest" and
    alt: "st' = Reduce (fn f (stringifiedValues f @ [s])) \<and> fs' = rest
      \<or> length (stringifiedValues f) + 1 < length (frame_values f)
        \<and> st' = Compute (fst (frame_values f ! (length (stringifiedValues f) + 1)))
                         (snd (frame_values f ! (length (stringifiedValues f) + 1)))
        \<and> fs' = f\<lparr>stringifiedValues := stringifiedValues f @ [s]\<rparr> # rest"
    by blast
  from alt show ?thesis
  proof
    assume "st' = Reduce (fn f (stringifiedValues f @ [s])) \<and> fs' = rest"
    with assms(3) fs show ?thesis by (simp add: depths_le_def)
  next
    assume a: "length (stringifiedValues f) + 1 < length (frame_values f)
        \<and> st' = Compute (fst (frame_values f ! (length (stringifiedValues f) + 1)))
                         (snd (frame_values f ! (length (stringifiedValues f) + 1)))
        \<and> fs' = f\<lparr>stringifiedValues := stringifiedValues f @ [s]\<rparr> # rest"
    then have "frame_values f ! (length (stringifiedValues f) + 1) \<in> set (frame_values f)"
      by (intro nth_mem) simp
    with assms(3) fs a show ?thesis by (simp add: depths_le_def)
  qed
qed

lemma traversal_depths:
  assumes "traversal h br (Compute a 0, [], c0) cfg" and "br = Some \<lparr>tag = t, maxDepth = int k\<rparr>"
  shows "depths_le k (fst cfg) (fst (snd cfg))"
  using assms(1)
proof (induction rule: traversal.induct)
  case start
  show ?case by (simp add: depths_le_def)
next
  case (iterate st fs c st' fs' c')
  from step_depths [OF iterate(2) assms(2)] iterate(3) show ?case by simp
qed

lemma closure_frame_values:
  "bs \<noteq> [] \<Longrightarrow>
   [(snd (bs ! 0), nd)] @ map (\<lambda>(id, v). (v, nd)) (drop 1 bs) = map (\<lambda>(id, v). (v, nd)) bs"
  by (cases bs) (auto simp: drop_Suc)

lemma step_blocked_closure:
  assumes "h b = FuncValue t bs" and "cache_get c b = None \<or> cache_get c b = Some []"
      and "br = Some \<lparr>tag = t, maxDepth = int k\<rparr>"
  shows "step h br (Compute b d) fs c =
     (if d = k then Continue (Reduce (''Fn'' @ string_of_nat t)) fs c
      else if bs = [] then Continue (Reduce (''Fn'' @ string_of_nat t @ ''[]'')) fs c
      else Continue (Compute (snd (bs ! 0)) (d + 1))
             (\<lparr>owner = b, frame_values = map (\<lambda>(id, v). (v, d + 1)) bs,
               stringifiedValues = [], fn = func_fn t bs\<rparr> # fs) c)"
  using assms closure_frame_values [of bs "d + 1"]
  by (simp add: step_cache_miss visit_def blocked_def at_max_depth_def Let_def)

section \<open>The recursive reading is the specified rendering\<close>

lemma func_fn_map:
  "func_fn t bs (map (f \<circ> snd) bs) =
     ''Fn'' @ string_of_nat t @ ''['' @ join '', '' (map (\<lambda>(id, v). id @ '': '' @ f v) bs) @ '']''"
proof -
  have "map (\<lambda>(i, item). fst (bs ! i) @ '': '' @ item) (enumerate 0 (map (f \<circ> snd) bs)) =
        map (\<lambda>(id, v). id @ '': '' @ f v) bs"
    by (rule nth_equalityI) (simp_all add: nth_enumerate_eq split: prod.splits)
  then show ?thesis by (simp add: func_fn_def)
qed

lemma eval_items_rendering:
  assumes "\<And>v. v \<in> set vs \<Longrightarrow> ev v d None = (Inr (f v), None)"
  shows "eval_items ev (map (\<lambda>v. (v, d)) vs) None = (Inr (map f vs), None)"
  using assms by (induction vs) simp_all

lemma eval_rendering:
  "graph_within h n a \<Longrightarrow> \<forall>b \<in> set (nodes h n a). h b \<noteq> Unhandled \<Longrightarrow>
   eval n h (Some \<lparr>tag = t, maxDepth = int k\<rparr>) a d None = (Inr (spec_rendering n h t k a d), None)"
proof (induction n arbitrary: a d)
  case 0
  then show ?case by simp
next
  case (Suc n)
  let ?br = "Some \<lparr>tag = t, maxDepth = int k\<rparr>"
  have miss: "cache_get None a = None \<or> cache_get None a = Some []" by (simp add: cache_get_def)
  have kids: "eval n h ?br v d' None = (Inr (spec_rendering n h t k v d'), None)"
    if "v \<in> set (children h a)" for v d'
    using that Suc.prems by (intro Suc.IH) auto
  have items: "eval_items (eval n h ?br) (map (\<lambda>v. (v, d')) (children h a)) None =
      (Inr (map (\<lambda>v. spec_rendering n h t k v d') (children h a)), None)" for d'
    by (rule eval_items_rendering) (rule kids)
  from Suc.prems(2) have "h a \<noteq> Unhandled" by simp
  then show ?case
  proof (cases "h a")
    case (MaybeErrorValue v)
    then show ?thesis
      using items [of d]
      by (simp add: eval_Suc decide_miss [OF miss] children_def child_depth_def combinator_def
            maybe_error_fn_def cache_set_def del: eval.simps)
  next
    case (BranchedValue p c cs)
    then show ?thesis
      using items [of d]
      by (simp add: eval_Suc decide_miss [OF miss] children_def child_depth_def combinator_def
            branched_fn_def cache_set_def del: eval.simps)
  next
    case (FuncValue tg bs)
    show ?thesis
    proof (cases "tg = t \<and> d = k")
      case True
      with FuncValue show ?thesis
        by (simp add: eval_Suc decide_miss [OF miss] blocked_def at_max_depth_def del: eval.simps)
    next
      case False
      show ?thesis
      proof (cases "bs = []")
        case True
        with False FuncValue show ?thesis
          by (auto simp: eval_Suc decide_miss [OF miss] blocked_def at_max_depth_def
                simp del: eval.simps)
      next
        case nonempty: False
        let ?d = "if tg = t then d + 1 else d"
        have cd: "child_depth h ?br a d = ?d"
          using FuncValue by (simp add: child_depth_def blocked_def)
        have ch: "children h a = map snd bs" using FuncValue by (simp add: children_def)
        have dec: "decide h ?br None a d = None"
          using False nonempty FuncValue
          by (auto simp: decide_miss [OF miss] blocked_def at_max_depth_def)
        from items [of ?d] FuncValue show ?thesis
          unfolding ch
          by (simp add: eval_Suc dec cd ch combinator_def func_fn_map cache_set_def
                False del: eval.simps)
      qed
    qed
  qed (simp_all add: eval_Suc decide_miss [OF miss] del: eval.simps)
qed

section \<open>Closures without bindings\<close>

text \<open>
  Against claim C3 as stated: under the cutoff \<open>(7, 0)\<close> the closure \<open>FuncValue(tag=7, stack=[])\<close>
  at the root is at the blocked tag and at the maximal depth, and the cutoff test comes first
  (line 168): the result is the placeholder \<open>Fn7\<close>, without the brackets.
\<close>

theorem empty_closure_counterexample:
  "stringifyValue heap_empty_fn 0 cutoff_7_0 None = Some (Inr ''Fn7'', None)
   \<and> heap_empty_fn 0 = FuncValue 7 []
   \<and> ''Fn7'' \<noteq> ''Fn'' @ string_of_nat 7 @ ''[]''"
  by (simp add: stringifyValue_def loop.simps step_def visit_def heap_empty_fn_def cutoff_7_0_def
        cache_get_def blocked_def at_max_depth_def string_of_nat.simps)

text \<open>
  Claim C3, amended: a closure without bindings, for which the cache (if any) holds no
  non-empty string, is rendered as \<open>"Fn" + definitionTag + "[]"\<close> at every depth and under
  every cutoff, except when the cutoff blocks its tag and its maximal depth is the current
  depth: then it is rendered as the placeholder \<open>"Fn" + definitionTag\<close>. Both inside a
  traversal (from \<open>Compute\<close> to \<open>Reduce\<close> on the same frame stack and cache) and as the root.
\<close>

theorem empty_closure:
  assumes "h a = FuncValue t []" and "cache_get c a = None \<or> cache_get c a = Some []"
  shows "loop h br (Compute a d) fs c =
           loop h br (Reduce (if blocked br t \<and> at_max_depth br d
                              then ''Fn'' @ string_of_nat t
                              else ''Fn'' @ string_of_nat t @ ''[]'')) fs c
         \<and> stringifyValue h a br c =
           Some (Inr (if blocked br t \<and> at_max_depth br 0
                      then ''Fn'' @ string_of_nat t
                      else ''Fn'' @ string_of_nat t @ ''[]''), c)"
proof -
  have "step h br (Compute a d) fs c =
          Continue (Reduce (if blocked br t \<and> at_max_depth br d
                              then ''Fn'' @ string_of_nat t
                              else ''Fn'' @ string_of_nat t @ ''[]'')) fs c" for d fs
    using assms by (simp add: step_cache_miss visit_def)
  then show ?thesis
    by (simp add: stringifyValue_def loop_continue loop_reduce_nil)
qed

theorem empty_closure_witness:
  "heap_empty_fn 0 = FuncValue 7 [] \<and> cache_get None 0 = None
   \<and> stringifyValue heap_empty_fn 0 None None = Some (Inr ''Fn7[]'', None)"
  using empty_closure [of heap_empty_fn 0 7 None None 0 "[]"]
  by (simp add: heap_empty_fn_def cache_get_def blocked_def string_of_nat.simps)

section \<open>Cache hits\<close>

text \<open>
  Against claim C4 as stated: the test is \<open>if (cached)\<close> (line 97), and the empty string is
  falsy. A literal \<open>3\<close> for which the cache holds the empty string is stringified afresh.
\<close>

theorem cached_empty_string_counterexample:
  "stringifyValue heap_literal 0 None cache_empty_string = Some (Inr ''3'', cache_empty_string)
   \<and> cache_get cache_empty_string 0 = Some []"
  by (simp add: stringifyValue_def loop.simps step_def visit_def heap_literal_def
        cache_empty_string_def cache_get_def)

text \<open>
  Claim C4, amended: when the supplied cache maps the value to a non-empty string \<open>s\<close>, the
  result is \<open>s\<close>, whatever the graph and the cutoff are: no child is visited (the machine goes
  from \<open>Compute\<close> to \<open>Reduce s\<close> on the same frame stack, on any heap) and the cache is left as
  it was.
\<close>

theorem cached_string_returned:
  assumes "cache_get c a = Some s" and "s \<noteq> []"
  shows "loop h br (Compute a d) fs c = loop h br (Reduce s) fs c
         \<and> stringifyValue h a br c = Some (Inr s, c)"
  using assms by (simp add: stringifyValue_def loop_continue step_cache_hit loop_reduce_nil)

theorem cached_string_returned_witness:
  "cache_get cache_stale 0 = Some ''old'' \<and> ''old'' \<noteq> []
   \<and> stringifyValue heap_literal 0 None cache_stale = Some (Inr ''old'', cache_stale)"
  using cached_string_returned [of cache_stale 0 "''old''" heap_literal None 0 "[]"]
  by (simp add: cache_stale_def cache_get_def)

section \<open>Recorded depths\<close>

text \<open>
  Claim C7: whenever the compute branch pushes a frame for a value \<open>v\<close> met at depth \<open>d\<close>, the
  frame lists the children of \<open>v\<close>, every one recorded at depth \<open>d + 1\<close> if \<open>v\<close> is a closure
  whose definition tag is the blocked tag of the cutoff, and at depth \<open>d\<close> in every other case
  (the inner value of a \<open>MaybeErrorValue\<close>, the condition and cases of a \<open>BranchedValue\<close>, the
  bindings of a closure of another tag or without a cutoff); the first child is computed at
  that depth, and the reduce branch resumes every later child at the depth recorded for it
  in the frame, which it does not change.
\<close>

theorem child_depths:
  "(step h br (Compute v d) fs c = Continue st' fs' c' \<and> fs' \<noteq> fs \<longrightarrow>
      (\<exists>f. fs' = f # fs \<and> owner f = v \<and> c' = c
          \<and> map fst (frame_values f) = children h v
          \<and> (\<forall>item \<in> set (frame_values f).
                snd item = (if \<exists>t bs. h v = FuncValue t bs \<and> blocked br t then d + 1 else d))
          \<and> st' = Compute (fst (hd (frame_values f))) (snd (hd (frame_values f)))))
   \<and> (step h br (Reduce s) (g # gs) k = Continue (Compute v' d') gs' k' \<longrightarrow>
        (v', d') \<in> set (frame_values g)
        \<and> gs' = g\<lparr>stringifiedValues := stringifiedValues g @ [s]\<rparr> # gs)"
proof (intro conjI impI)
  assume a: "step h br (Compute v d) fs c = Continue st' fs' c' \<and> fs' \<noteq> fs"
  have cd: "child_depth h br v d = (if \<exists>t bs. h v = FuncValue t bs \<and> blocked br t then d + 1 else d)"
    by (cases "h v") (simp_all add: child_depth_def)
  from step_compute_cases [of h br v d c] a
  obtain f where f: "step h br (Compute v d) [] c =
            Continue (Compute (fst (hd (frame_values f))) (snd (hd (frame_values f)))) [f] c"
     "frame_for h br v d f"
    by (subst (asm) (4) step_frames) auto
  with a have "fs' = f # fs" "c' = c"
    "st' = (Compute (fst (hd (frame_values f))) (snd (hd (frame_values f))))"
    by (subst (asm) step_frames, simp)+
  with f(2) cd show "\<exists>f. fs' = f # fs \<and> owner f = v \<and> c' = c
          \<and> map fst (frame_values f) = children h v
          \<and> (\<forall>item \<in> set (frame_values f).
                snd item = (if \<exists>t bs. h v = FuncValue t bs \<and> blocked br t then d + 1 else d))
          \<and> st' = Compute (fst (hd (frame_values f))) (snd (hd (frame_values f)))"
    by (auto simp: frame_for_def comp_def)
next
  assume "step h br (Reduce s) (g # gs) k = Continue (Compute v' d') gs' k'"
  then show "(v', d') \<in> set (frame_values g)"
    by (auto simp: step_def Let_def split: if_splits)
next
  assume "step h br (Reduce s) (g # gs) k = Continue (Compute v' d') gs' k'"
  then show "gs' = g\<lparr>stringifiedValues := stringifiedValues g @ [s]\<rparr> # gs"
    by (auto simp: step_def Let_def split: if_splits)
qed

theorem child_depths_witness:
  "step heap_shared cutoff_7_5 (Compute 0 0) [] None = Continue (Compute 1 1) [frame_shared] None
   \<and> [frame_shared] \<noteq> []
   \<and> map snd (frame_values frame_shared) = [1, 1, 1]
   \<and> step heap_shared cutoff_7_5 (Reduce ''1'') [frame_shared] None =
       Continue (Compute 2 1) [frame_shared\<lparr>stringifiedValues := [''1'']\<rparr>] None
   \<and> (2, 1) \<in> set (frame_values frame_shared)"
  using child_depths [of heap_shared cutoff_7_5 0 0 "[]" None "Compute 1 1" "[frame_shared]" None
          "''1''" frame_shared "[]" None 2 1 "[frame_shared\<lparr>stringifiedValues := [''1'']\<rparr>]" None]
  by (simp add: step_def visit_def heap_shared_def cutoff_7_5_def frame_shared_def cache_get_def
        blocked_def at_max_depth_def children_def Let_def)

section \<open>The example graphs\<close>

lemmas run_defs =
  stringifyValue_def loop.simps step_def visit_def cache_get_def cache_set_def blocked_def
  at_max_depth_def Let_def func_fn_def branched_fn_def maybe_error_fn_def enumerate_eq_zip
  string_of_nat.simps

lemma heap_shared_within: "graph_within heap_shared 4 0"
  by (simp add: eval_nat_numeral heap_shared_def children_def)

lemma heap_shared_nodes: "nodes heap_shared 4 0 = [0, 1, 2, 3, 4, 1, 1, 2, 3, 4, 1, 1]"
  by (simp add: eval_nat_numeral heap_shared_def children_def)

lemma heap_shared_string:
  "stringifyValue heap_shared 0 cutoff_7_5 None =
     Some (Inr ''Fn7[x: 1, y: (If(Any, 1, 1) | Error), z: (If(Any, 1, 1) | Error)]'', None)"
  by (simp add: stringifyValue_def loop.simps step_def visit_def heap_shared_def cutoff_7_5_def
     cache_get_def cache_set_def blocked_def at_max_depth_def Let_def
     func_fn_def branched_fn_def maybe_error_fn_def enumerate_eq_zip string_of_nat.simps)

lemma heap_recursive_string:
  "stringifyValue heap_recursive 0 cutoff_9_1 None = Some (Inr ''Fn9[self: Fn9]'', None)"
  by (simp add: stringifyValue_def loop.simps step_def visit_def heap_recursive_def cutoff_9_1_def
     cache_get_def cache_set_def blocked_def at_max_depth_def Let_def
     func_fn_def enumerate_eq_zip string_of_nat.simps)

lemma heap_nested_string:
  "stringifyValue heap_nested 0 cutoff_7_1 None =
     Some (Inr ''Fn7[f: (Ite(Any, Fn7, 1) | Error)]'', None)"
  by (simp add: run_defs heap_nested_def cutoff_7_1_def)

section \<open>Cache transparency\<close>



section \<open>Determinism\<close>

text \<open>
  Claim C8: \<open>stringifyValue\<close> is a function of its arguments, and of the heap it reads only
  the instances reachable from the value: on two heaps that agree on the (finite) graph of
  the value, whatever they hold elsewhere, it gives the same result, the same string or
  error and the same cache. In particular two calls on an unchanged graph return identical
  strings.
\<close>

theorem stringifyValue_deterministic:
  assumes "graph_within h n a" and "\<forall>b \<in> set (nodes h n a). h b = h' b"
  shows "stringifyValue h a br c = stringifyValue h' a br c"
  using assms graph_within_heap [OF assms]
  by (simp add: stringifyValue_eval eval_heap)

theorem stringifyValue_deterministic_witness:
  "graph_within heap_shared 4 0 \<and> heap_shared_other 9 \<noteq> heap_shared 9
   \<and> stringifyValue heap_shared 0 None None = stringifyValue heap_shared_other 0 None None"
proof -
  have agree: "\<forall>b \<in> set (nodes heap_shared 4 0). heap_shared b = heap_shared_other b"
    by (simp add: heap_shared_nodes heap_shared_other_def)
  have differ: "heap_shared_other 9 \<noteq> heap_shared 9"
    by (simp add: heap_shared_other_def heap_shared_def)
  from stringifyValue_deterministic [OF heap_shared_within agree, of None None]
    heap_shared_within differ
  show ?thesis by simp
qed

section \<open>Fatal errors\<close>

text \<open>
  Against claim C9 as stated: a graph that contains an object of no known variant need not
  raise. Under the cutoff \<open>(7, 0)\<close> the closure of tag 7 at the root is rendered as the
  placeholder and its binding, an unhandled object, is never visited.
\<close>

theorem unhandled_hidden_counterexample:
  "stringifyValue heap_unhandled 0 cutoff_7_0 None = Some (Inr ''Fn7'', None)
   \<and> graph_within heap_unhandled 2 0
   \<and> nodes heap_unhandled 2 0 = [0, 1] \<and> heap_unhandled 1 = Unhandled"
  by (simp add: stringifyValue_def loop.simps step_def visit_def heap_unhandled_def cutoff_7_0_def
        cache_get_def blocked_def at_max_depth_def string_of_nat.simps eval_nat_numeral children_def)

text \<open>
  Claim C9, amended. On a finite graph: if every instance is of one of the eight variants,
  the machine halts in a \<open>Reduce\<close> with an empty frame stack and that string is returned,
  under every cutoff and cache; whenever an error is raised, it is "unhandled value type",
  never "unexpected", and the graph contains an instance of no known variant; and with no
  cutoff and no cache the converse holds, a graph that contains such an instance raises.
\<close>

theorem fatal_errors:
  assumes "graph_within h n a"
  shows "((\<forall>b \<in> set (nodes h n a). h b \<noteq> Unhandled) \<longrightarrow>
            (\<exists>s c'. loop h br (Compute a 0) [] c = Some (Inr (Reduce s), c')
                  \<and> stringifyValue h a br c = Some (Inr s, c')))
       \<and> (\<forall>e c'. stringifyValue h a br c = Some (Inl e, c') \<longrightarrow>
            e = UnhandledValueType \<and> (\<exists>b \<in> set (nodes h n a). h b = Unhandled))
       \<and> ((\<exists>b \<in> set (nodes h n a). h b = Unhandled) \<longrightarrow>
            stringifyValue h a None None = Some (Inl UnhandledValueType, None))"
proof (intro conjI impI allI)
  assume "\<forall>b \<in> set (nodes h n a). h b \<noteq> Unhandled"
  from eval_sealed [OF assms this, of br 0 c] obtain s c' where "eval n h br a 0 c = (Inr s, c')"
    by (cases "eval n h br a 0 c") auto
  with assms show "\<exists>s c'. loop h br (Compute a 0) [] c = Some (Inr (Reduce s), c')
                  \<and> stringifyValue h a br c = Some (Inr s, c')"
    by (simp add: stringifyValue_eval loop_eval loop_reduce_nil)
next
  fix e c' assume "stringifyValue h a br c = Some (Inl e, c')"
  with assms have "fst (eval n h br a 0 c) = Inl e" by (simp add: stringifyValue_eval)
  from eval_error [OF assms this]
  show "e = UnhandledValueType" "\<exists>b \<in> set (nodes h n a). h b = Unhandled" by simp_all
next
  assume "\<exists>b \<in> set (nodes h n a). h b = Unhandled"
  from eval_unhandled [OF assms this, of 0] obtain e where e: "fst (eval n h None a 0 None) = Inl e"
    by blast
  with eval_error [OF assms e] eval_no_cache [of n h None a 0]
  have "eval n h None a 0 None = (Inl UnhandledValueType, None)"
    by (cases "eval n h None a 0 None") simp
  with assms show "stringifyValue h a None None = Some (Inl UnhandledValueType, None)"
    by (simp add: stringifyValue_eval)
qed

theorem fatal_errors_witness:
  "graph_within heap_unhandled 2 0 \<and> heap_unhandled 1 = Unhandled
   \<and> stringifyValue heap_unhandled 0 None None = Some (Inl UnhandledValueType, None)
   \<and> graph_within heap_shared 4 0
   \<and> stringifyValue heap_shared 0 cutoff_7_5 None =
       Some (Inr ''Fn7[x: 1, y: (If(Any, 1, 1) | Error), z: (If(Any, 1, 1) | Error)]'', None)"
proof -
  have g: "graph_within heap_unhandled 2 0"
    by (simp add: eval_nat_numeral heap_unhandled_def children_def)
  have u: "\<exists>b \<in> set (nodes heap_unhandled 2 0). heap_unhandled b = Unhandled"
    by (simp add: eval_nat_numeral heap_unhandled_def children_def)
  have s: "\<forall>b \<in> set (nodes heap_shared 4 0). heap_shared b \<noteq> Unhandled"
    by (simp add: heap_shared_nodes) (simp add: heap_shared_def)
  from fatal_errors [OF g, of None None] u
    fatal_errors [OF heap_shared_within, of cutoff_7_5 None] s g heap_shared_within
  show ?thesis
    by (simp add: heap_shared_string) (simp add: heap_unhandled_def)
qed

section \<open>Termination under the recursion cutoff\<close>

text \<open>
  Against claim C1 as stated, which leaves the cache open: the cache is looked up before the
  cutoff is tested (line 95 before line 168). With a fresh cache the instance 1, a closure of
  tag 9, is stringified at depth 1 and stored; when it is met again at depth 2, the maximal
  depth, its stored string \<open>Fn9[a: 1]\<close> is returned instead of the placeholder \<open>Fn9\<close> that the
  call without a cache gives.
\<close>

theorem cached_closure_counterexample:
  "map_option fst (stringifyValue heap_twice 0 cutoff_9_2 cache_fresh) =
     Some (Inr ''Fn9[x: Fn9[a: 1], y: Fn9[b: Fn9[a: 1]]]'')
   \<and> stringifyValue heap_twice 0 cutoff_9_2 None =
     Some (Inr ''Fn9[x: Fn9[a: 1], y: Fn9[b: Fn9]]'', None)
   \<and> graph_within heap_twice 4 0
   \<and> heap_twice 2 = FuncValue 9 [(''b'', 1)] \<and> heap_twice 1 = FuncValue 9 [(''a'', 3)]"
  by (simp add: run_defs heap_twice_def cutoff_9_2_def cache_fresh_def eval_nat_numeral
        children_def)

text \<open>
  Claim C1, amended. On every finite value graph, \<open>stringifyValue\<close> with the cutoff \<open>(t, k)\<close>
  returns a string, under every cache. Without a cache that string is the specified
  rendering, in which a closure of tag \<open>t\<close> is the placeholder \<open>"Fn" + t\<close> exactly at nesting
  level \<open>k\<close> of closures of that tag, wherever in the graph it stands. Throughout the run,
  with or without a cache, no value is met at a depth beyond \<open>k\<close>, and a closure of tag \<open>t\<close>
  for which the cache holds no non-empty string is reduced in one step to the placeholder on
  the same frame stack when it is met at depth \<open>k\<close>, its environment not visited, while at
  every other depth it is \<open>"Fn" + t + "[]"\<close> if it has no bindings and is otherwise expanded
  into a frame that records every binding at the next depth.
\<close>

theorem cutoff_terminates:
  assumes "graph_within h n a" and "\<forall>b \<in> set (nodes h n a). h b \<noteq> Unhandled"
      and "br = Some \<lparr>tag = t, maxDepth = int k\<rparr>"
  shows "(\<exists>s c'. stringifyValue h a br c = Some (Inr s, c'))
     \<and> stringifyValue h a br None = Some (Inr (spec_rendering n h t k a 0), None)
     \<and> (\<forall>b d fs c'. traversal h br (Compute a 0, [], c) (Compute b d, fs, c') \<longrightarrow>
          d \<le> k \<and>
          (\<forall>bs. h b = FuncValue t bs \<and> (cache_get c' b = None \<or> cache_get c' b = Some []) \<longrightarrow>
             step h br (Compute b d) fs c' =
               (if d = k then Continue (Reduce (''Fn'' @ string_of_nat t)) fs c'
                else if bs = [] then Continue (Reduce (''Fn'' @ string_of_nat t @ ''[]'')) fs c'
                else Continue (Compute (snd (bs ! 0)) (d + 1))
                       (\<lparr>owner = b, frame_values = map (\<lambda>(id, v). (v, d + 1)) bs,
                         stringifiedValues = [], fn = func_fn t bs\<rparr> # fs) c')))"
proof (intro conjI allI impI)
  from eval_sealed [OF assms(1,2), of br 0 c]
  obtain s c' where "eval n h br a 0 c = (Inr s, c')"
    by (cases "eval n h br a 0 c") auto
  with assms(1) show "\<exists>s c'. stringifyValue h a br c = Some (Inr s, c')"
    by (simp add: stringifyValue_eval)
next
  from assms show "stringifyValue h a br None = Some (Inr (spec_rendering n h t k a 0), None)"
    by (simp add: stringifyValue_eval eval_rendering)
next
  fix b d fs c'
  assume "traversal h br (Compute a 0, [], c) (Compute b d, fs, c')"
  from traversal_depths [OF this assms(3)] show "d \<le> k" by (simp add: depths_le_def)
next
  fix b d fs c' bs
  assume "h b = FuncValue t bs \<and> (cache_get c' b = None \<or> cache_get c' b = Some [])"
  then show "step h br (Compute b d) fs c' =
               (if d = k then Continue (Reduce (''Fn'' @ string_of_nat t)) fs c'
                else if bs = [] then Continue (Reduce (''Fn'' @ string_of_nat t @ ''[]'')) fs c'
                else Continue (Compute (snd (bs ! 0)) (d + 1))
                       (\<lparr>owner = b, frame_values = map (\<lambda>(id, v). (v, d + 1)) bs,
                         stringifiedValues = [], fn = func_fn t bs\<rparr> # fs) c')"
    using assms(3) by (intro step_blocked_closure) simp_all
qed

theorem cutoff_terminates_witness:
  "graph_within heap_nested 5 0 \<and> nodes heap_nested 5 0 = [0, 1, 2, 3, 4, 5, 5]
   \<and> stringifyValue heap_nested 0 cutoff_7_1 None =
       Some (Inr ''Fn7[f: (Ite(Any, Fn7, 1) | Error)]'', None)
   \<and> spec_rendering 5 heap_nested 7 1 0 0 = ''Fn7[f: (Ite(Any, Fn7, 1) | Error)]''
   \<and> graph_within heap_recursive 3 0 \<and> nodes heap_recursive 3 0 = [0, 1, 2]
   \<and> spec_rendering 3 heap_recursive 9 1 0 0 = ''Fn9[self: Fn9]''
   \<and> step heap_recursive cutoff_9_1 (Compute 0 0) [] None =
       Continue (Compute 1 1) [frame_recursive] None
   \<and> traversal heap_recursive cutoff_9_1 (Compute 0 0, [], None)
        (Compute 1 1, [frame_recursive], None)
   \<and> step heap_recursive cutoff_9_1 (Compute 1 1) [frame_recursive] None =
       Continue (Reduce ''Fn9'') [frame_recursive] None"
proof -
  have g: "graph_within heap_nested 5 0"
    by (simp add: eval_nat_numeral heap_nested_def children_def)
  have n: "nodes heap_nested 5 0 = [0, 1, 2, 3, 4, 5, 5]"
    by (simp add: eval_nat_numeral heap_nested_def children_def)
  have s: "\<forall>b \<in> set (nodes heap_nested 5 0). heap_nested b \<noteq> Unhandled"
    by (simp add: n) (simp add: heap_nested_def)
  have br: "cutoff_7_1 = Some \<lparr>tag = 7, maxDepth = int 1\<rparr>"
    by (simp add: cutoff_7_1_def)
  have g': "graph_within heap_recursive 3 0"
    by (simp add: eval_nat_numeral heap_recursive_def children_def)
  have n': "nodes heap_recursive 3 0 = [0, 1, 2]"
    by (simp add: eval_nat_numeral heap_recursive_def children_def)
  have s': "\<forall>b \<in> set (nodes heap_recursive 3 0). heap_recursive b \<noteq> Unhandled"
    by (simp add: n') (simp add: heap_recursive_def)
  have br': "cutoff_9_1 = Some \<lparr>tag = 9, maxDepth = int 1\<rparr>"
    by (simp add: cutoff_9_1_def)
  have h0: "heap_recursive 0 = FuncValue 9 [(''self'', 1)]"
    and h1: "heap_recursive 1 = FuncValue 9 [(''self'', 2)]"
    by (simp_all add: heap_recursive_def)
  have miss: "cache_get None b = None \<or> cache_get None b = Some []" for b
    by (simp add: cache_get_def)
  note nested = cutoff_terminates [OF g s br, of None]
  note recursive = cutoff_terminates [OF g' s' br', of None]
  from nested have r: "spec_rendering 5 heap_nested 7 1 0 0 = ''Fn7[f: (Ite(Any, Fn7, 1) | Error)]''"
    by (simp add: heap_nested_string)
  from recursive have r': "spec_rendering 3 heap_recursive 9 1 0 0 = ''Fn9[self: Fn9]''"
    by (simp add: heap_recursive_string)
  from recursive traversal.start [of heap_recursive cutoff_9_1 "(Compute 0 0, [], None)"] h0 miss
  have st0: "step heap_recursive cutoff_9_1 (Compute 0 0) [] None =
       Continue (Compute 1 1) [frame_recursive] None"
    by (simp add: frame_recursive_def)
  with traversal.start [of heap_recursive cutoff_9_1 "(Compute 0 0, [], None)"]
  have tr: "traversal heap_recursive cutoff_9_1 (Compute 0 0, [], None)
              (Compute 1 1, [frame_recursive], None)"
    by (rule traversal.iterate)
  from recursive tr h1 miss
  have st1: "step heap_recursive cutoff_9_1 (Compute 1 1) [frame_recursive] None =
       Continue (Reduce ''Fn9'') [frame_recursive] None"
    by (simp add: string_of_nat.simps)
  from g n g' n' r r' st0 tr st1 show ?thesis by (simp add: heap_nested_string)
qed

text \<open>
  The cutoff bounds the unfolding whatever the depth of the recursion represented: even on a
  closure that refers to itself the run ends, at the first re-entry for the maximal depth 1.
\<close>

lemma self_reference_cut:
  "stringifyValue heap_cyclic 0 cutoff_9_1 None = Some (Inr ''Fn9[self: Fn9]'', None)"
  by (simp add: stringifyValue_def loop.simps step_def visit_def heap_cyclic_def cutoff_9_1_def
     cache_get_def cache_set_def blocked_def at_max_depth_def Let_def
     func_fn_def enumerate_eq_zip string_of_nat.simps)

section \<open>What is written into the cache\<close>

lemma composite_children: "composite h b \<longleftrightarrow> children h b \<noteq> []"
  by (simp add: composite_def children_def split: node.splits)

lemma frame_for_owned: "frame_for h br a d f \<Longrightarrow> owned h f"
  by (cases "children h a") (auto simp: frame_for_def owned_def composite_children)

lemma cache_grows_refl: "cache_grows h c c"
  by (simp add: cache_grows_def split: option.splits)

lemma cache_grows_trans: "cache_grows h c c' \<Longrightarrow> cache_grows h c' c'' \<Longrightarrow> cache_grows h c c''"
  by (cases c) (auto simp: cache_grows_def, metis)

lemma cache_grows_set:
  "composite h b \<Longrightarrow> length items = length (children h b) \<Longrightarrow>
   cache_grows h c (cache_set c b (combinator h b items))"
  by (auto simp: cache_grows_def cache_set_def written_def split: option.splits)

lemma step_owned:
  assumes "step h br st fs c = Continue st' fs' c'" and "\<forall>f \<in> set fs. owned h f"
  shows "(\<forall>f \<in> set fs'. owned h f) \<and> cache_grows h c c'"
proof (cases st)
  case (Compute a d)
  with assms show ?thesis
    by (cases st')
       (auto dest!: step_compute_push step_compute_reduce
             intro: frame_for_owned cache_grows_refl)
next
  case (Reduce s)
  from step_reduce_cases [OF assms(1) [unfolded Reduce]] obtain f rest where
    fs: "fs = f # rest" and
    alt: "length (stringifiedValues f) + 1 = length (frame_values f)
        \<and> fs' = rest \<and> c' = cache_set c (owner f) (fn f (stringifiedValues f @ [s]))
      \<or> length (stringifiedValues f) + 1 < length (frame_values f)
        \<and> fs' = f\<lparr>stringifiedValues := stringifiedValues f @ [s]\<rparr> # rest \<and> c' = c"
    by blast
  from alt show ?thesis
  proof
    assume a: "length (stringifiedValues f) + 1 = length (frame_values f)
        \<and> fs' = rest \<and> c' = cache_set c (owner f) (fn f (stringifiedValues f @ [s]))"
    from assms(2) fs have o: "owned h f" and rest: "\<forall>f \<in> set rest. owned h f" by simp_all
    from o have fn: "fn f = combinator h (owner f)" by (simp add: owned_def)
    from o a have "cache_grows h c
        (cache_set c (owner f) (combinator h (owner f) (stringifiedValues f @ [s])))"
      by (intro cache_grows_set) (simp_all add: owned_def)
    with a rest fn show ?thesis by simp
  next
    assume a: "length (stringifiedValues f) + 1 < length (frame_values f)
        \<and> fs' = f\<lparr>stringifiedValues := stringifiedValues f @ [s]\<rparr> # rest \<and> c' = c"
    from assms(2) fs have o: "owned h f" and rest: "\<forall>f \<in> set rest. owned h f" by simp_all
    from o a have "owned h (f\<lparr>stringifiedValues := stringifiedValues f @ [s]\<rparr>)"
      by (simp add: owned_def)
    with a rest show ?thesis by (simp add: cache_grows_refl)
  qed
qed

lemma loop_cache:
  "loop h br st fs c = Some y \<Longrightarrow> (\<forall>f \<in> set fs. owned h f) \<longrightarrow> cache_grows h c (snd y)"
proof (induction rule: loop.raw_induct [rotated 1, consumes 1])
  case (1 loop' h br st fs c y)
  show ?case
  proof
    assume fs: "\<forall>f \<in> set fs. owned h f"
    show "cache_grows h c (snd y)"
    proof (cases "step h br st fs c")
      case (Continue st' fs' c')
      with 1(2) have "loop' h br st' fs' c' = Some y" by simp
      from 1(1) [OF this] step_owned [OF Continue fs] show ?thesis
        by (blast intro: cache_grows_trans)
    next
      case (Break st' c')
      then have "c' = c"
        by (auto simp: step_def Let_def
              split: state.splits option.splits sum.splits list.splits if_splits)
      with Break 1(2) show ?thesis by (auto simp: cache_grows_refl)
    next
      case (Throw e c')
      then have "c' = c"
        by (auto simp: step_def Let_def
              split: state.splits option.splits sum.splits list.splits if_splits prod.splits)
      with Throw 1(2) show ?thesis by (auto simp: cache_grows_refl)
    qed
  qed
qed

lemma combinator_not_placeholder:
  "h b = FuncValue t bs \<Longrightarrow> combinator h b items \<noteq> ''Fn'' @ string_of_nat t"
  by (simp add: combinator_def func_fn_def)

lemma heap_shared_cached:
  "stringifyValue heap_shared 0 None cache_fresh =
     Some (Inr ''Fn7[x: 1, y: (If(Any, 1, 1) | Error), z: (If(Any, 1, 1) | Error)]'',
           cache_shared_after)"
  by (simp add: stringifyValue_def loop.simps step_def visit_def heap_shared_def
     cache_fresh_def cache_shared_after_def cache_get_def cache_set_def blocked_def
     at_max_depth_def Let_def
     func_fn_def branched_fn_def maybe_error_fn_def enumerate_eq_zip string_of_nat.simps)

text \<open>
  Claim C10: besides its result, a call of \<open>stringifyValue\<close> leaves only the cache (the
  heap is read, never written). Without a cache there is none afterwards; with a cache,
  every entry that differs afterwards is keyed by a composite value (a \<open>MaybeErrorValue\<close>, a
  \<open>BranchedValue\<close>, or a closure with at least one binding) and holds what the combinator of
  that value returned on one string per child. No entry is written for a leaf, and the
  string written for a closure is never the placeholder \<open>"Fn" + definitionTag\<close>. This holds
  for every call that returns or throws, on any heap.
\<close>

theorem cache_entries:
  assumes "stringifyValue h a br c = Some (r, c')"
  shows "(c = None \<longrightarrow> c' = None) \<and>
     (\<forall>m. c = Some m \<longrightarrow>
        (\<exists>m'. c' = Some m' \<and>
           (\<forall>b. m' b \<noteq> m b \<longrightarrow>
              composite h b
              \<and> (\<exists>items. length items = length (children h b)
                     \<and> m' b = Some (combinator h b items))
              \<and> (\<forall>t bs. h b = FuncValue t bs \<longrightarrow> m' b \<noteq> Some (''Fn'' @ string_of_nat t)))))"
proof -
  from assms obtain y where "loop h br (Compute a 0) [] c = Some (y, c')"
    by (auto simp: stringifyValue_def split: option.splits sum.splits state.splits)
  from loop_cache [OF this] have grows: "cache_grows h c c'" by simp
  show ?thesis
  proof (cases c)
    case None
    with grows show ?thesis by (simp add: cache_grows_def)
  next
    case (Some m)
    with grows obtain m' where m': "c' = Some m'" "\<forall>b. m' b \<noteq> m b \<longrightarrow> written h b (m' b)"
      by (auto simp: cache_grows_def)
    have "m' b \<noteq> Some (''Fn'' @ string_of_nat t)"
      if "m' b \<noteq> m b" "h b = FuncValue t bs" for b t bs
    proof -
      from m'(2) that(1) obtain items where "m' b = Some (combinator h b items)"
        by (auto simp: written_def)
      with combinator_not_placeholder [of h b t bs items] that(2) show ?thesis by simp
    qed
    with m' Some show ?thesis by (auto simp: written_def)
  qed
qed

theorem cache_entries_witness:
  "stringifyValue heap_shared 0 None cache_fresh =
     Some (Inr ''Fn7[x: 1, y: (If(Any, 1, 1) | Error), z: (If(Any, 1, 1) | Error)]'',
           cache_shared_after)
   \<and> cache_get cache_fresh 2 = None
   \<and> cache_get cache_shared_after 2 = Some ''(If(Any, 1, 1) | Error)''
   \<and> composite heap_shared 2
   \<and> cache_get cache_shared_after 1 = None"
  using cache_entries [OF heap_shared_cached] heap_shared_cached
  by (simp add: cache_fresh_def cache_shared_after_def cache_get_def composite_def
        heap_shared_def)

section \<open>stringifyStackValues\<close>

lemma stack_items_char:
  "stack_items h bs br c = Some (Inr items, c') \<longleftrightarrow>
     (\<exists>ss cs. length ss = length bs \<and> length cs = Suc (length bs)
        \<and> cs ! 0 = c \<and> cs ! length bs = c'
        \<and> (\<forall>i < length bs.
              stringifyValue h (snd (bs ! i)) br (cs ! i) = Some (Inr (ss ! i), cs ! Suc i))
        \<and> items = map (\<lambda>i. fst (bs ! i) @ '': '' @ ss ! i) [0..<length bs])"
proof (induction bs arbitrary: c items)
  case Nil
  show ?case
  proof
    assume "stack_items h [] br c = Some (Inr items, c')"
    then show "\<exists>ss cs. length ss = length [] \<and> length cs = Suc (length [])
        \<and> cs ! 0 = c \<and> cs ! length [] = c'
        \<and> (\<forall>i < length []. stringifyValue h (snd ([] ! i)) br (cs ! i) = Some (Inr (ss ! i), cs ! Suc i))
        \<and> items = map (\<lambda>i. fst ([] ! i) @ '': '' @ ss ! i) [0..<length []]"
      by (intro exI [of _ "[]"] exI [of _ "[c]"]) simp
  qed auto
next
  case (Cons b bs)
  show ?case
  proof
    assume a: "stack_items h (b # bs) br c = Some (Inr items, c')"
    then obtain s c1 where s: "stringifyValue h (snd b) br c = Some (Inr s, c1)"
      by (auto split: option.splits sum.splits prod.splits)
    with a obtain items' where i': "stack_items h bs br c1 = Some (Inr items', c')"
      "items = (fst b @ '': '' @ s) # items'"
      by (auto split: option.splits sum.splits prod.splits)
    from i'(1) [unfolded Cons.IH] obtain ss cs where r:
      "length ss = length bs" "length cs = Suc (length bs)" "cs ! 0 = c1" "cs ! length bs = c'"
      "\<forall>i < length bs. stringifyValue h (snd (bs ! i)) br (cs ! i) = Some (Inr (ss ! i), cs ! Suc i)"
      "items' = map (\<lambda>i. fst (bs ! i) @ '': '' @ ss ! i) [0..<length bs]"
      by blast
    show "\<exists>ss cs. length ss = length (b # bs) \<and> length cs = Suc (length (b # bs))
        \<and> cs ! 0 = c \<and> cs ! length (b # bs) = c'
        \<and> (\<forall>i < length (b # bs).
              stringifyValue h (snd ((b # bs) ! i)) br (cs ! i) = Some (Inr (ss ! i), cs ! Suc i))
        \<and> items = map (\<lambda>i. fst ((b # bs) ! i) @ '': '' @ ss ! i) [0..<length (b # bs)]"
      using r s i'(2)
      by (intro exI [of _ "s # ss"] exI [of _ "c # cs"])
         (simp add: All_less_Suc2 map_upt_Suc del: upt_Suc)
  next
    assume "\<exists>ss cs. length ss = length (b # bs) \<and> length cs = Suc (length (b # bs))
        \<and> cs ! 0 = c \<and> cs ! length (b # bs) = c'
        \<and> (\<forall>i < length (b # bs).
              stringifyValue h (snd ((b # bs) ! i)) br (cs ! i) = Some (Inr (ss ! i), cs ! Suc i))
        \<and> items = map (\<lambda>i. fst ((b # bs) ! i) @ '': '' @ ss ! i) [0..<length (b # bs)]"
    then obtain ss cs where r:
      "length ss = Suc (length bs)" "length cs = Suc (Suc (length bs))"
      "cs ! 0 = c" "cs ! Suc (length bs) = c'"
      "\<forall>i < Suc (length bs).
          stringifyValue h (snd ((b # bs) ! i)) br (cs ! i) = Some (Inr (ss ! i), cs ! Suc i)"
      "items = map (\<lambda>i. fst ((b # bs) ! i) @ '': '' @ ss ! i) [0..<Suc (length bs)]"
      by auto
    from r(1) obtain s ss' where ss: "ss = s # ss'" by (cases ss) auto
    from r(2) obtain c0 cs' where cs: "cs = c0 # cs'" by (cases cs) auto
    from r(5) have first: "stringifyValue h (snd b) br c = Some (Inr s, cs' ! 0)"
      and rest: "\<forall>i < length bs.
          stringifyValue h (snd (bs ! i)) br (cs' ! i) = Some (Inr (ss' ! i), cs' ! Suc i)"
      using r(3) unfolding ss cs All_less_Suc2 by simp_all
    have "stack_items h bs br (cs' ! 0) =
            Some (Inr (map (\<lambda>i. fst (bs ! i) @ '': '' @ ss' ! i) [0..<length bs]), c')"
      unfolding Cons.IH
      using r(1,2,4) rest unfolding ss cs
      by (intro exI [of _ ss'] exI [of _ cs']) simp
    with first r(6) show "stack_items h (b # bs) br c = Some (Inr items, c')"
      unfolding ss by (simp add: map_upt_Suc del: upt_Suc)
  qed
qed

text \<open>
  Claim C5: \<open>stringifyStackValues\<close> returns a string exactly when every binding stringifies
  to a string \<open>s\<^sub>i\<close>, where \<open>s\<^sub>i\<close> is the result of \<open>stringifyValue\<close> on the value of
  the \<open>i\<close>-th binding, with the same cutoff and with the one shared cache in the state
  \<open>cs ! i\<close> in which the calls for the bindings before it left it (\<open>cs ! 0\<close> is the cache
  supplied, the last one the cache left behind); and the string returned is then
  \<open>"[" + id\<^sub>0 + ": " + s\<^sub>0 + ", " + id\<^sub>1 + ": " + s\<^sub>1 + ... + "]"\<close>, in binding order.
\<close>

theorem stack_values_format:
  "stringifyStackValues h bindings br c = Some (Inr out, c') \<longleftrightarrow>
     (\<exists>ss cs. length ss = length bindings \<and> length cs = Suc (length bindings)
        \<and> cs ! 0 = c \<and> cs ! length bindings = c'
        \<and> (\<forall>i < length bindings.
              stringifyValue h (snd (bindings ! i)) br (cs ! i) = Some (Inr (ss ! i), cs ! Suc i))
        \<and> out = ''['' @ join '', '' (map (\<lambda>i. fst (bindings ! i) @ '': '' @ ss ! i)
                                        [0..<length bindings]) @ '']'')"
proof -
  have "stringifyStackValues h bindings br c = Some (Inr out, c') \<longleftrightarrow>
        (\<exists>items. stack_items h bindings br c = Some (Inr items, c')
                \<and> out = ''['' @ join '', '' items @ '']'')"
    by (auto simp: stringifyStackValues_def split: option.splits sum.splits prod.splits)
  then show ?thesis unfolding stack_items_char by blast
qed

theorem stack_values_format_witness:
  "stringifyStackValues heap_shared [(''x'', 1), (''y'', 2), (''z'', 2)] None cache_fresh =
     Some (Inr ''[x: 1, y: (If(Any, 1, 1) | Error), z: (If(Any, 1, 1) | Error)]'',
           cache_shared_mid)"
proof -
  have 1: "stringifyValue heap_shared 1 None cache_fresh = Some (Inr ''1'', cache_fresh)"
    by (simp add: run_defs heap_shared_def cache_fresh_def)
  have 2: "stringifyValue heap_shared 2 None cache_fresh =
             Some (Inr ''(If(Any, 1, 1) | Error)'', cache_shared_mid)"
    by (simp add: run_defs heap_shared_def cache_fresh_def cache_shared_mid_def)
  have 3: "stringifyValue heap_shared 2 None cache_shared_mid =
             Some (Inr ''(If(Any, 1, 1) | Error)'', cache_shared_mid)"
    by (simp add: run_defs heap_shared_def cache_shared_mid_def)
  show ?thesis
    unfolding stack_values_format
    by (intro exI [of _ "[''1'', ''(If(Any, 1, 1) | Error)'', ''(If(Any, 1, 1) | Error)'']"]
              exI [of _ "[cache_fresh, cache_fresh, cache_shared_mid, cache_shared_mid]"])
       (simp add: 1 [unfolded One_nat_def] 2 3 All_less_Suc2 upt_rec)
qed

section \<open>stringifyCall\<close>

lemma join_concat:
  "join sep xs = concat (map (\<lambda>i. (if i = 0 then [] else sep) @ xs ! i) [0..<length xs])"
proof (induction sep xs rule: join.induct)
  case (3 sep x y ys)
  have "concat (map (\<lambda>i. (if i = 0 then [] else sep) @ (x # y # ys) ! i) [0..<length (x # y # ys)])
        = x @ sep @ y @ concat (map (\<lambda>i. sep @ ys ! i) [0..<length ys])"
    by (simp add: map_upt_Suc del: upt_Suc)
  moreover have "join sep (y # ys) = y @ concat (map (\<lambda>i. sep @ ys ! i) [0..<length ys])"
    unfolding 3 by (simp add: map_upt_Suc del: upt_Suc)
  ultimately show ?case by simp
qed simp_all

text \<open>
  Claim C6: \<open>stringifyCall\<close> returns the callee's own text, an opening parenthesis, the own
  texts of the arguments in order, each but the first preceded by a comma and a space, and
  a closing parenthesis. It takes no cutoff and no cache, and is a function of the texts
  the operands give for themselves.
\<close>

theorem call_format:
  "stringifyCall toString f args =
     toString f @ ''('' @
     concat (map (\<lambda>i. (if i = 0 then [] else '', '') @ toString (args ! i)) [0..<length args])
     @ '')''"
proof -
  have eq: "map (\<lambda>i. (if i = 0 then [] else '', '') @ map toString args ! i) [0..<length args] =
        map (\<lambda>i. (if i = 0 then [] else '', '') @ toString (args ! i)) [0..<length args]"
    by (rule map_cong) simp_all
  have "join '', '' (map toString args) =
        concat (map (\<lambda>i. (if i = 0 then [] else '', '') @ toString (args ! i)) [0..<length args])"
    unfolding join_concat [of "'', ''" "map toString args"] length_map eq ..
  then show ?thesis unfolding stringifyCall_def by (rule arg_cong)
qed

theorem call_format_witness:
  "stringifyCall own_text 0 [1, 2, 1] = ''add(1, Any, 1)''"
  using call_format [of own_text 0 "[1, 2, 1]"]
  by (simp add: own_text_def upt_rec)

end
